theory Spec2Isabelle
  imports Main "HOL-Library.Word"
begin

unbundle bit_operations_syntax

section \<open>The package builder \<open>build.py\<close>\<close>

text \<open>
  \<open>build.py\<close> reads \<open>./packages/<name>/manifest.json\<close> and the files under
  \<open>./packages/<name>/source/\<close>, assembles one JSON document per package, compresses
  and encodes it, and writes \<open>./pool/<name>.<version>.ccp\<close> and \<open>./pool/index.json\<close>.

  Conventions of the model:
  \<^item> a Python \<open>str\<close> is a \<open>string\<close>; each \<open>char\<close> is one code point, so the model
    covers text whose code points are below 256;
  \<^item> a Python \<open>bytes\<close> is a list of 8-bit words;
  \<^item> a JSON value is a \<open>json\<close>; a Python \<open>dict\<close> is an association list in insertion
    order, and \<open>None\<close> is \<open>JNull\<close>. Numbers with a fraction or an exponent (Python
    floats) are outside the model;
  \<^item> the working directory is a tree of \<open>node\<close>s; a file holds the text that reading it in
    text mode returns; links, permissions and \<open>..\<close> path components are outside the model;
  \<^item> an exception is a value \<open>Inl e\<close>; \<open>Inl Unmodelled\<close> marks an input outside the model;
  \<^item> \<open>print\<close> appends a line to \<open>stdout\<close>.
\<close>

subsection \<open>Values, errors and the file system\<close>

type_synonym byte = "8 word"

datatype json =
    JNull
  | JBool bool
  | JInt int
  | JString string
  | JArray "json list"
  | JObject "(string \<times> json) list"

datatype error =
    FileNotFoundError
  | NotADirectoryError
  | IsADirectoryError
  | JSONDecodeError
  | UnicodeDecodeError
  | TypeError
  | KeyError
  | Unmodelled

datatype node = File string | Dir "(string \<times> node) list"

record world =
  cwd :: node
  stdout :: "string list"

definition print :: "string \<Rightarrow> world \<Rightarrow> world" where
  "print line w = w\<lparr>stdout := stdout w @ [line]\<rparr>"

definition PACKAGES_ROOT_SRC_DIR :: string where
  "PACKAGES_ROOT_SRC_DIR = ''./packages''"

definition PACKAGES_SRC_DIR :: string where
  "PACKAGES_SRC_DIR = ''source''"

definition MANIFEST_FILE :: string where
  "MANIFEST_FILE = ''manifest.json''"

definition PACKAGES_POOL_DIR :: string where
  "PACKAGES_POOL_DIR = ''./pool''"

definition INDEX_FILE :: string where
  "INDEX_FILE = ''index.json''"

subsection \<open>Paths\<close>

text \<open>A path string is cut at every \<open>/\<close>; \<open>split_path ''a//b/''\<close> is \<open>[''a'', '''', ''b'', '''']\<close>.\<close>

fun split_path :: "string \<Rightarrow> string list" where
  "split_path [] = [[]]"
| "split_path (c # cs) =
     (if c = CHR ''/'' then [] # split_path cs
      else case split_path cs of
             [] \<Rightarrow> [[c]]
           | p # ps \<Rightarrow> (c # p) # ps)"

text \<open>
  Path resolution from a directory: empty components and \<open>.\<close> stay where they are, a
  name is looked up in the directory's entries, and a component after a regular file
  fails.
\<close>

fun lookup :: "node \<Rightarrow> string list \<Rightarrow> error + node" where
  "lookup n [] = Inr n"
| "lookup (File t) (c # cs) = Inl NotADirectoryError"
| "lookup (Dir es) (c # cs) =
     (if c = [] \<or> c = ''.'' then lookup (Dir es) cs
      else case map_of es c of
             None \<Rightarrow> Inl FileNotFoundError
           | Some n \<Rightarrow> lookup n cs)"

definition resolve :: "node \<Rightarrow> string \<Rightarrow> error + node" where
  "resolve root path = lookup root (split_path path)"

text \<open>\<open>open(path).read()\<close>: the text of the regular file at \<open>path\<close>.\<close>

definition open_read :: "node \<Rightarrow> string \<Rightarrow> error + string" where
  "open_read root path =
     (case resolve root path of
        Inl e \<Rightarrow> Inl e
      | Inr (Dir es) \<Rightarrow> Inl IsADirectoryError
      | Inr (File t) \<Rightarrow> Inr t)"

text \<open>\<open>os.path.join\<close> with two arguments and \<open>str.removeprefix\<close>.\<close>

definition path_join :: "string \<Rightarrow> string \<Rightarrow> string" where
  "path_join a p =
     (if p \<noteq> [] \<and> hd p = CHR ''/'' then p
      else if a = [] \<or> last a = CHR ''/'' then a @ p
      else a @ ''/'' @ p)"

definition removeprefix :: "string \<Rightarrow> string \<Rightarrow> string" where
  "removeprefix pre s = (if take (length pre) s = pre then drop (length pre) s else s)"

subsection \<open>\<open>os.scandir\<close> and \<open>os.walk\<close>\<close>

text \<open>
  The entries of a directory come in the order the file system lists them, which is the
  order of the entry list. \<open>os.walk\<close> visits top-down: the triple of a directory, then the
  walk of each of its subdirectories in turn. A directory that cannot be listed (it is
  absent, or a regular file) yields nothing, since \<open>onerror\<close> is not given.
\<close>

fun dirnames :: "(string \<times> node) list \<Rightarrow> string list" where
  "dirnames [] = []"
| "dirnames ((name, File t) # es) = dirnames es"
| "dirnames ((name, Dir ds) # es) = name # dirnames es"

fun filenames :: "(string \<times> node) list \<Rightarrow> string list" where
  "filenames [] = []"
| "filenames ((name, File t) # es) = name # filenames es"
| "filenames ((name, Dir ds) # es) = filenames es"

fun walk :: "string \<Rightarrow> node \<Rightarrow> (string \<times> string list \<times> string list) list"
  and walk_dirs :: "string \<Rightarrow> (string \<times> node) list \<Rightarrow> (string \<times> string list \<times> string list) list"
where
  "walk dir (File t) = []"
| "walk dir (Dir es) = (dir, dirnames es, filenames es) # walk_dirs dir es"
| "walk_dirs dir [] = []"
| "walk_dirs dir ((name, File t) # es) = walk_dirs dir es"
| "walk_dirs dir ((name, Dir ds) # es) = walk (path_join dir name) (Dir ds) @ walk_dirs dir es"

definition os_walk :: "node \<Rightarrow> string \<Rightarrow> (string \<times> string list \<times> string list) list" where
  "os_walk root dir = (case resolve root dir of Inl e \<Rightarrow> [] | Inr n \<Rightarrow> walk dir n)"

definition os_scandir :: "node \<Rightarrow> string \<Rightarrow> error + string list" where
  "os_scandir root path =
     (case resolve root path of
        Inl e \<Rightarrow> Inl e
      | Inr (File t) \<Rightarrow> Inl NotADirectoryError
      | Inr (Dir es) \<Rightarrow> Inr (map fst es))"

subsection \<open>The file collector\<close>

definition get_all_packages :: "node \<Rightarrow> error + string list" where
  "get_all_packages root = os_scandir root PACKAGES_ROOT_SRC_DIR"

definition get_package_files :: "node \<Rightarrow> string \<Rightarrow> string list" where
  "get_package_files root name =
     (let path = PACKAGES_ROOT_SRC_DIR @ ''/'' @ name @ ''/'' @ PACKAGES_SRC_DIR @ ''/''
      in concat (map (\<lambda>(root', _, files). map (\<lambda>file. removeprefix path root' @ ''/'' @ file) files)
                     (os_walk root path)))"

subsection \<open>Text and bytes\<close>

text \<open>
  \<open>str.encode()\<close> is UTF-8: a code point below 128 is one byte, one from 128 to 255 is
  two bytes. \<open>bytes.decode()\<close> is its inverse; a byte sequence for a code point of 256 or
  more is outside the model.
\<close>

definition utf8_char :: "char \<Rightarrow> byte list" where
  "utf8_char c =
     (let n = (of_char c :: nat)
      in if n < 128 then [of_nat n] else [of_nat (192 + n div 64), of_nat (128 + n mod 64)])"

definition str_encode :: "string \<Rightarrow> byte list" where
  "str_encode s = concat (map utf8_char s)"

fun bytes_decode :: "byte list \<Rightarrow> error + string" where
  "bytes_decode [] = Inr []"
| "bytes_decode (b # bs) =
     (if unat b < 0x80 then
        (case bytes_decode bs of Inl e \<Rightarrow> Inl e | Inr s \<Rightarrow> Inr (char_of (unat b) # s))
      else if unat b = 0xC2 \<or> unat b = 0xC3 then
        (case bs of
           [] \<Rightarrow> Inl UnicodeDecodeError
         | c # bs' \<Rightarrow>
             if 0x80 \<le> unat c \<and> unat c < 0xC0 then
               (case bytes_decode bs' of
                  Inl e \<Rightarrow> Inl e
                | Inr s \<Rightarrow> Inr (char_of ((unat b - 0xC0) * 64 + (unat c - 0x80)) # s))
             else Inl UnicodeDecodeError)
      else if 0xC4 \<le> unat b \<and> unat b \<le> 0xF4 then Inl Unmodelled
      else Inl UnicodeDecodeError)"

definition hexdigit :: "nat \<Rightarrow> char" where
  "hexdigit n = ''0123456789abcdef'' ! n"

definition hex_byte :: "byte \<Rightarrow> string" where
  "hex_byte b = [hexdigit (unat b div 16), hexdigit (unat b mod 16)]"

subsection \<open>\<open>hashlib.sha256\<close>\<close>

text \<open>
  SHA-256 as in FIPS 180-4: the message is padded to a multiple of 64 bytes, and each block
  updates eight 32-bit words in 64 rounds. \<open>hexdigest\<close> writes the 32 bytes in lower-case
  hexadecimal.
\<close>

text \<open>
  The round constants are the first 32 bits of the fractional parts of the cube roots of
  the first 64 primes, and the initial hash value those of the square roots of the first
  8 primes; both are written in decimal.
\<close>

definition K256 :: "32 word list" where
  "K256 =
    [1116352408, 1899447441, 3049323471, 3921009573,
     961987163, 1508970993, 2453635748, 2870763221,
     3624381080, 310598401, 607225278, 1426881987,
     1925078388, 2162078206, 2614888103, 3248222580,
     3835390401, 4022224774, 264347078, 604807628,
     770255983, 1249150122, 1555081692, 1996064986,
     2554220882, 2821834349, 2952996808, 3210313671,
     3336571891, 3584528711, 113926993, 338241895,
     666307205, 773529912, 1294757372, 1396182291,
     1695183700, 1986661051, 2177026350, 2456956037,
     2730485921, 2820302411, 3259730800, 3345764771,
     3516065817, 3600352804, 4094571909, 275423344,
     430227734, 506948616, 659060556, 883997877,
     958139571, 1322822218, 1537002063, 1747873779,
     1955562222, 2024104815, 2227730452, 2361852424,
     2428436474, 2756734187, 3204031479, 3329325298]"

definition H256 :: "32 word list" where
  "H256 = [1779033703, 3144134277, 1013904242, 2773480762, 1359893119, 2600822924, 528734635, 1541459225]"

definition Ch :: "32 word \<Rightarrow> 32 word \<Rightarrow> 32 word \<Rightarrow> 32 word" where
  "Ch x y z = (x AND y) XOR (NOT x AND z)"

definition Maj :: "32 word \<Rightarrow> 32 word \<Rightarrow> 32 word \<Rightarrow> 32 word" where
  "Maj x y z = (x AND y) XOR (x AND z) XOR (y AND z)"

definition Sigma0 :: "32 word \<Rightarrow> 32 word" where
  "Sigma0 x = word_rotr 2 x XOR word_rotr 13 x XOR word_rotr 22 x"

definition Sigma1 :: "32 word \<Rightarrow> 32 word" where
  "Sigma1 x = word_rotr 6 x XOR word_rotr 11 x XOR word_rotr 25 x"

definition sigma0 :: "32 word \<Rightarrow> 32 word" where
  "sigma0 x = word_rotr 7 x XOR word_rotr 18 x XOR drop_bit 3 x"

definition sigma1 :: "32 word \<Rightarrow> 32 word" where
  "sigma1 x = word_rotr 17 x XOR word_rotr 19 x XOR drop_bit 10 x"

definition sha_pad :: "byte list \<Rightarrow> byte list" where
  "sha_pad msg =
     (let bits = (of_nat (8 * length msg) :: 64 word)
      in msg @ [0x80] @ replicate ((64 - (length msg + 9) mod 64) mod 64) 0
           @ map (\<lambda>i. ucast (drop_bit (8 * i) bits)) [7, 6, 5, 4, 3, 2, 1, 0])"

fun be_words :: "byte list \<Rightarrow> 32 word list" where
  "be_words (a # b # c # d # bs) =
     (push_bit 24 (ucast a) OR push_bit 16 (ucast b) OR push_bit 8 (ucast c) OR ucast d) # be_words bs"
| "be_words bs = []"

fun extend :: "nat \<Rightarrow> 32 word list \<Rightarrow> 32 word list" where
  "extend 0 w = w"
| "extend (Suc n) w =
     (let t = length w
      in extend n (w @ [sigma1 (w ! (t - 2)) + w ! (t - 7) + sigma0 (w ! (t - 15)) + w ! (t - 16)]))"

fun sha_round :: "32 word \<times> 32 word \<Rightarrow> 32 word list \<Rightarrow> 32 word list" where
  "sha_round (k, w) [a, b, c, d, e, f, g, h] =
     (let t1 = h + Sigma1 e + Ch e f g + k + w;
          t2 = Sigma0 a + Maj a b c
      in [t1 + t2, a, b, c, d + t1, e, f, g])"
| "sha_round (k, w) s = s"

definition sha_block :: "byte list \<Rightarrow> 32 word list \<Rightarrow> 32 word list" where
  "sha_block block h = map2 (+) h (fold sha_round (zip K256 (extend 48 (be_words block))) h)"

function blocks :: "byte list \<Rightarrow> byte list list" where
  "blocks bs = (if bs = [] then [] else take 64 bs # blocks (drop 64 bs))"
  by pat_completeness auto
termination
  by (relation "measure length") auto

definition sha256 :: "byte list \<Rightarrow> byte list" where
  "sha256 msg =
     concat (map (\<lambda>w. map (\<lambda>i. ucast (drop_bit (8 * i) w)) [3, 2, 1, 0])
                 (fold sha_block (blocks (sha_pad msg)) H256))"

definition sha256_hexdigest :: "byte list \<Rightarrow> string" where
  "sha256_hexdigest msg = concat (map hex_byte (sha256 msg))"

subsection \<open>\<open>base64.b64encode\<close>\<close>

text \<open>
  The standard alphabet with padding: three bytes become four characters of six bits each;
  a last group of one or two bytes is padded with \<open>=\<close>.
\<close>

definition b64_code :: "nat \<Rightarrow> nat" where
  "b64_code i =
     (if i < 26 then i + 65
      else if i < 52 then i + 71
      else if i < 62 then i - 4
      else if i = 62 then 43
      else 47)"

definition b64_char :: "nat \<Rightarrow> byte" where
  "b64_char i = of_nat (b64_code i)"

fun b64encode :: "byte list \<Rightarrow> byte list" where
  "b64encode [] = []"
| "b64encode [a] =
     [b64_char (unat a div 4), b64_char (unat a mod 4 * 16), 61, 61]"
| "b64encode [a, b] =
     [b64_char (unat a div 4), b64_char (unat a mod 4 * 16 + unat b div 16),
      b64_char (unat b mod 16 * 4), 61]"
| "b64encode (a # b # c # bs) =
     [b64_char (unat a div 4), b64_char (unat a mod 4 * 16 + unat b div 16),
      b64_char (unat b mod 16 * 4 + unat c div 64), b64_char (unat c mod 64)] @ b64encode bs"

subsection \<open>\<open>json.dumps\<close>\<close>

text \<open>
  The default settings: \<open>, \<close> between items, \<open>: \<close> after a key, and every character
  outside the printable ASCII range escaped.
\<close>

definition escape_char :: "char \<Rightarrow> string" where
  "escape_char c =
     (if c = CHR 0x22 then [CHR 0x5C, CHR 0x22]
      else if c = CHR 0x5C then [CHR 0x5C, CHR 0x5C]
      else if c = CHR 0x0A then [CHR 0x5C, CHR ''n'']
      else if c = CHR 0x0D then [CHR 0x5C, CHR ''r'']
      else if c = CHR 0x09 then [CHR 0x5C, CHR ''t'']
      else if c = CHR 0x08 then [CHR 0x5C, CHR ''b'']
      else if c = CHR 0x0C then [CHR 0x5C, CHR ''f'']
      else if 0x20 \<le> (of_char c :: nat) \<and> (of_char c :: nat) \<le> 0x7E then [c]
      else [CHR 0x5C, CHR ''u'', CHR ''0'', CHR ''0'',
            hexdigit ((of_char c :: nat) div 16), hexdigit ((of_char c :: nat) mod 16)])"

definition encode_basestring_ascii :: "string \<Rightarrow> string" where
  "encode_basestring_ascii s = [CHR 0x22] @ concat (map escape_char s) @ [CHR 0x22]"

function digits :: "nat \<Rightarrow> string" where
  "digits n = (if n < 10 then [char_of (48 + n)] else digits (n div 10) @ [char_of (48 + n mod 10)])"
  by pat_completeness auto
termination
  by (relation "measure id") auto

declare digits.simps [simp del]

definition int_repr :: "int \<Rightarrow> string" where
  "int_repr i = (if i < 0 then CHR ''-'' # digits (nat (- i)) else digits (nat i))"

fun json_dumps :: "json \<Rightarrow> string"
  and dumps_items :: "json list \<Rightarrow> string"
  and dumps_pairs :: "(string \<times> json) list \<Rightarrow> string"
where
  "json_dumps JNull = ''null''"
| "json_dumps (JBool b) = (if b then ''true'' else ''false'')"
| "json_dumps (JInt i) = int_repr i"
| "json_dumps (JString s) = encode_basestring_ascii s"
| "json_dumps (JArray vs) = ''['' @ dumps_items vs @ '']''"
| "json_dumps (JObject kvs) = ''{'' @ dumps_pairs kvs @ ''}''"
| "dumps_items [] = []"
| "dumps_items [v] = json_dumps v"
| "dumps_items (v # w # vs) = json_dumps v @ '', '' @ dumps_items (w # vs)"
| "dumps_pairs [] = []"
| "dumps_pairs [(k, v)] = encode_basestring_ascii k @ '': '' @ json_dumps v"
| "dumps_pairs ((k, v) # p # ps) =
     encode_basestring_ascii k @ '': '' @ json_dumps v @ '', '' @ dumps_pairs (p # ps)"


subsection \<open>\<open>json.loads\<close>\<close>

text \<open>
  A recursive-descent reader of the JSON grammar as \<open>json.loads\<close> accepts it. Text that
  Python reads as a value the model has no place for (a float, \<open>NaN\<close>, an escape of a code
  point of 256 or more) gives \<open>Unmodelled\<close>; \<open>JSONDecodeError\<close> is given only where Python
  raises it.
\<close>

definition is_ws :: "char \<Rightarrow> bool" where
  "is_ws c \<longleftrightarrow> c = CHR 0x20 \<or> c = CHR 0x09 \<or> c = CHR 0x0A \<or> c = CHR 0x0D"

definition skip_ws :: "string \<Rightarrow> string" where
  "skip_ws s = dropWhile is_ws s"

definition is_digit :: "char \<Rightarrow> bool" where
  "is_digit c \<longleftrightarrow> 48 \<le> (of_char c :: nat) \<and> (of_char c :: nat) \<le> 57"

definition hex_value :: "char \<Rightarrow> nat option" where
  "hex_value c =
     (let n = (of_char c :: nat)
      in if 48 \<le> n \<and> n \<le> 57 then Some (n - 48)
         else if 97 \<le> n \<and> n \<le> 102 then Some (n - 87)
         else if 65 \<le> n \<and> n \<le> 70 then Some (n - 55)
         else None)"

definition backslash :: "char \<Rightarrow> char option" where
  "backslash e =
     (if e = CHR 0x22 then Some (CHR 0x22)
      else if e = CHR 0x5C then Some (CHR 0x5C)
      else if e = CHR ''/'' then Some (CHR ''/'')
      else if e = CHR ''b'' then Some (CHR 0x08)
      else if e = CHR ''f'' then Some (CHR 0x0C)
      else if e = CHR ''n'' then Some (CHR 0x0A)
      else if e = CHR ''r'' then Some (CHR 0x0D)
      else if e = CHR ''t'' then Some (CHR 0x09)
      else None)"

text \<open>
  The four hexadecimal digits of a \<open>\u\<close> escape. An escape for a code point of 256 or more
  is outside the model.
\<close>

definition decode_uXXXX :: "char \<Rightarrow> char \<Rightarrow> char \<Rightarrow> char \<Rightarrow> error + char" where
  "decode_uXXXX a b c d =
     (case (hex_value a, hex_value b, hex_value c, hex_value d) of
        (Some x3, Some x2, Some x1, Some x0) \<Rightarrow>
          (if x3 = 0 \<and> x2 = 0 then Inr (char_of (x1 * 16 + x0)) else Inl Unmodelled)
      | _ \<Rightarrow> Inl JSONDecodeError)"

text \<open>The text of a string after its opening quote, up to and including the closing quote.\<close>

fun scanstring :: "string \<Rightarrow> error + (string \<times> string)" where
  "scanstring [] = Inl JSONDecodeError"
| "scanstring (c # cs) =
     (if c = CHR 0x22 then Inr ([], cs)
      else if c = CHR 0x5C then
        (case cs of
           [] \<Rightarrow> Inl JSONDecodeError
         | e # cs' \<Rightarrow>
             (if e = CHR ''u'' then
                (case cs' of
                   a # b # c' # d # rest \<Rightarrow>
                     (case decode_uXXXX a b c' d of
                        Inl err \<Rightarrow> Inl err
                      | Inr ch \<Rightarrow>
                          (case scanstring rest of
                             Inl err \<Rightarrow> Inl err
                           | Inr (str, rest') \<Rightarrow> Inr (ch # str, rest')))
                 | _ \<Rightarrow> Inl JSONDecodeError)
              else
                (case backslash e of
                   None \<Rightarrow> Inl JSONDecodeError
                 | Some ch \<Rightarrow>
                     (case scanstring cs' of
                        Inl err \<Rightarrow> Inl err
                      | Inr (str, rest') \<Rightarrow> Inr (ch # str, rest')))))
      else if (of_char c :: nat) < 0x20 then Inl JSONDecodeError
      else
        (case scanstring cs of
           Inl err \<Rightarrow> Inl err
         | Inr (str, rest') \<Rightarrow> Inr (c # str, rest')))"

definition nat_of_digits :: "string \<Rightarrow> nat" where
  "nat_of_digits ds = foldl (\<lambda>n c. 10 * n + ((of_char c :: nat) - 48)) 0 ds"

text \<open>Whether a fraction or an exponent follows the integer part, making the number a float.\<close>

definition float_follows :: "string \<Rightarrow> bool" where
  "float_follows s =
     (case s of
        [] \<Rightarrow> False
      | c # cs \<Rightarrow>
          if c = CHR ''.'' then (case cs of [] \<Rightarrow> False | d # _ \<Rightarrow> is_digit d)
          else if c = CHR ''e'' \<or> c = CHR ''E'' then
            (case cs of
               [] \<Rightarrow> False
             | d # ds \<Rightarrow>
                 if d = CHR ''+'' \<or> d = CHR ''-'' then (case ds of [] \<Rightarrow> False | d' # _ \<Rightarrow> is_digit d')
                 else is_digit d)
          else False)"

definition starts_with :: "string \<Rightarrow> string \<Rightarrow> bool" where
  "starts_with pre s \<longleftrightarrow> take (length pre) s = pre"

text \<open>
  A number at the head of \<open>s\<close>: an optional sign, then \<open>0\<close> or a digit string without a
  leading zero.
\<close>

definition scan_number :: "string \<Rightarrow> error + (json \<times> string)" where
  "scan_number s =
     (let neg = starts_with ''-'' s;
          s1 = (if neg then tl s else s)
      in case s1 of
           [] \<Rightarrow> Inl JSONDecodeError
         | c # cs \<Rightarrow>
             if is_digit c then
               (let ds = (if c = CHR ''0'' then [c] else c # takeWhile is_digit cs);
                    rest = (if c = CHR ''0'' then cs else dropWhile is_digit cs)
                in if float_follows rest then Inl Unmodelled
                   else Inr (JInt (if neg then - int (nat_of_digits ds) else int (nat_of_digits ds)), rest))
             else if starts_with ''NaN'' s \<or> starts_with ''Infinity'' s \<or> starts_with ''-Infinity'' s
               then Inl Unmodelled
             else Inl JSONDecodeError)"

text \<open>
  Storing under a key of a \<open>dict\<close>: a key that is present keeps its place and gets the
  new value, a new key goes to the end. An object is read into a dictionary pair by pair.
\<close>

fun assoc_set :: "('k \<times> 'v) list \<Rightarrow> 'k \<Rightarrow> 'v \<Rightarrow> ('k \<times> 'v) list" where
  "assoc_set [] k v = [(k, v)]"
| "assoc_set ((k', v') # kvs) k v =
     (if k' = k then (k, v) # kvs else (k', v') # assoc_set kvs k v)"

definition dict_of_pairs :: "(string \<times> json) list \<Rightarrow> (string \<times> json) list" where
  "dict_of_pairs kvs = foldl (\<lambda>d (k, v). assoc_set d k v) [] kvs"

function parse_value :: "string \<Rightarrow> error + (json \<times> string)"
  and parse_elements :: "string \<Rightarrow> error + (json list \<times> string)"
  and parse_members :: "string \<Rightarrow> error + ((string \<times> json) list \<times> string)"
where
  "parse_value s =
     (case s of
        [] \<Rightarrow> Inl JSONDecodeError
      | c # cs \<Rightarrow>
          if c = CHR 0x22 then
            (case scanstring cs of Inl e \<Rightarrow> Inl e | Inr (str, rest) \<Rightarrow> Inr (JString str, rest))
          else if c = CHR ''{'' then
            (case skip_ws cs of
               [] \<Rightarrow> Inl JSONDecodeError
             | d # ds \<Rightarrow>
                 if d = CHR ''}'' then Inr (JObject [], ds)
                 else (case parse_members (d # ds) of
                         Inl e \<Rightarrow> Inl e
                       | Inr (kvs, rest) \<Rightarrow> Inr (JObject (dict_of_pairs kvs), rest)))
          else if c = CHR ''['' then
            (case skip_ws cs of
               [] \<Rightarrow> Inl JSONDecodeError
             | d # ds \<Rightarrow>
                 if d = CHR '']'' then Inr (JArray [], ds)
                 else (case parse_elements (d # ds) of
                         Inl e \<Rightarrow> Inl e
                       | Inr (vs, rest) \<Rightarrow> Inr (JArray vs, rest)))
          else if starts_with ''null'' s then Inr (JNull, drop 4 s)
          else if starts_with ''true'' s then Inr (JBool True, drop 4 s)
          else if starts_with ''false'' s then Inr (JBool False, drop 5 s)
          else scan_number s)"
| "parse_elements s =
     (case parse_value s of
        Inl e \<Rightarrow> Inl e
      | Inr (v, rest) \<Rightarrow>
          if length rest < length s then
            (case skip_ws rest of
               [] \<Rightarrow> Inl JSONDecodeError
             | d # ds \<Rightarrow>
                 if d = CHR '']'' then Inr ([v], ds)
                 else if d = CHR '','' then
                   (case parse_elements (skip_ws ds) of
                      Inl e \<Rightarrow> Inl e
                    | Inr (vs, rest') \<Rightarrow> Inr (v # vs, rest'))
                 else Inl JSONDecodeError)
          else Inl JSONDecodeError)"
| "parse_members s =
     (case s of
        [] \<Rightarrow> Inl JSONDecodeError
      | q # cs \<Rightarrow>
          if q = CHR 0x22 then
            (case scanstring cs of
               Inl e \<Rightarrow> Inl e
             | Inr (k, rest) \<Rightarrow>
                 if length rest \<le> length cs then
                   (case skip_ws rest of
                      [] \<Rightarrow> Inl JSONDecodeError
                    | d # ds \<Rightarrow>
                        if d = CHR '':'' then
                          (case parse_value (skip_ws ds) of
                             Inl e \<Rightarrow> Inl e
                           | Inr (v, rest') \<Rightarrow>
                               if length rest' < length ds then
                                 (case skip_ws rest' of
                                    [] \<Rightarrow> Inl JSONDecodeError
                                  | d' # ds' \<Rightarrow>
                                      if d' = CHR ''}'' then Inr ([(k, v)], ds')
                                      else if d' = CHR '','' then
                                        (case parse_members (skip_ws ds') of
                                           Inl e \<Rightarrow> Inl e
                                         | Inr (kvs, rest'') \<Rightarrow> Inr ((k, v) # kvs, rest''))
                                      else Inl JSONDecodeError)
                               else Inl JSONDecodeError)
                        else Inl JSONDecodeError)
                 else Inl JSONDecodeError)
          else Inl JSONDecodeError)"
  by pat_completeness auto

termination
proof (relation "measure (\<lambda>x. case x of
    Inl s \<Rightarrow> 2 * length s
  | Inr (Inl s) \<Rightarrow> 2 * length s + 1
  | Inr (Inr s) \<Rightarrow> 2 * length s + 1)", goal_cases)
  have le: "length (skip_ws s) \<le> length s" for s
    by (simp add: skip_ws_def length_dropWhile_le)
  have less: "length ds < length s" if "skip_ws s = d # ds" for s d ds
    using le [of s] that by simp
  {
    case 1
    show ?case by simp
  next
    case (2 s c cs d ds)
    then show ?case using less [of cs d ds] by simp
  next
    case (3 s c cs d ds)
    then show ?case using less [of cs d ds] by simp
  next
    case (4 s)
    show ?case by simp
  next
    case (5 s x v rest d ds)
    then show ?case using less [of rest d ds] le [of ds] by simp
  next
    case (6 s q cs x k rest d ds)
    then show ?case using less [of rest d ds] le [of ds] by simp
  next
    case (7 s q cs x k rest d ds y v rest' d' ds')
    then show ?case using less [of rest d ds] less [of rest' d' ds'] le [of ds'] by simp
  }
qed

definition json_loads :: "string \<Rightarrow> error + json" where
  "json_loads s =
     (case parse_value (skip_ws s) of
        Inl e \<Rightarrow> Inl e
      | Inr (v, rest) \<Rightarrow> if skip_ws rest = [] then Inr v else Inl JSONDecodeError)"

declare parse_value.simps [simp del] parse_elements.simps [simp del] parse_members.simps [simp del]

subsection \<open>Subscripts and \<open>str()\<close>\<close>

text \<open>\<open>d[k]\<close> and \<open>d[k] = v\<close>; only a \<open>dict\<close> takes a string subscript.\<close>

definition getitem :: "json \<Rightarrow> string \<Rightarrow> error + json" where
  "getitem d k =
     (case d of
        JObject kvs \<Rightarrow> (case map_of kvs k of None \<Rightarrow> Inl KeyError | Some v \<Rightarrow> Inr v)
      | _ \<Rightarrow> Inl TypeError)"

definition setitem :: "json \<Rightarrow> string \<Rightarrow> json \<Rightarrow> error + json" where
  "setitem d k v =
     (case d of
        JObject kvs \<Rightarrow> Inr (JObject (assoc_set kvs k v))
      | _ \<Rightarrow> Inl TypeError)"

text \<open>
  What an f-string writes for a value: a string as it is, anything else by \<open>repr\<close>.
\<close>

definition py_printable :: "char \<Rightarrow> bool" where
  "py_printable c \<longleftrightarrow>
     (let n = (of_char c :: nat) in (0x20 \<le> n \<and> n \<le> 0x7E) \<or> (0xA1 \<le> n \<and> n \<noteq> 0xAD))"

definition repr_char :: "char \<Rightarrow> char \<Rightarrow> string" where
  "repr_char quote c =
     (if c = quote \<or> c = CHR 0x5C then [CHR 0x5C, c]
      else if c = CHR 0x09 then [CHR 0x5C, CHR ''t'']
      else if c = CHR 0x0A then [CHR 0x5C, CHR ''n'']
      else if c = CHR 0x0D then [CHR 0x5C, CHR ''r'']
      else if py_printable c then [c]
      else [CHR 0x5C, CHR ''x'', hexdigit ((of_char c :: nat) div 16), hexdigit ((of_char c :: nat) mod 16)])"

definition str_repr :: "string \<Rightarrow> string" where
  "str_repr s =
     (let quote = (if CHR 0x27 \<in> set s \<and> CHR 0x22 \<notin> set s then CHR 0x22 else CHR 0x27)
      in [quote] @ concat (map (repr_char quote) s) @ [quote])"

fun py_repr :: "json \<Rightarrow> string"
  and repr_items :: "json list \<Rightarrow> string"
  and repr_pairs :: "(string \<times> json) list \<Rightarrow> string"
where
  "py_repr JNull = ''None''"
| "py_repr (JBool b) = (if b then ''True'' else ''False'')"
| "py_repr (JInt i) = int_repr i"
| "py_repr (JString s) = str_repr s"
| "py_repr (JArray vs) = ''['' @ repr_items vs @ '']''"
| "py_repr (JObject kvs) = ''{'' @ repr_pairs kvs @ ''}''"
| "repr_items [] = []"
| "repr_items [v] = py_repr v"
| "repr_items (v # w # vs) = py_repr v @ '', '' @ repr_items (w # vs)"
| "repr_pairs [] = []"
| "repr_pairs [(k, v)] = str_repr k @ '': '' @ py_repr v"
| "repr_pairs ((k, v) # p # ps) = str_repr k @ '': '' @ py_repr v @ '', '' @ repr_pairs (p # ps)"

definition py_str :: "json \<Rightarrow> string" where
  "py_str v = (case v of JString s \<Rightarrow> s | _ \<Rightarrow> py_repr v)"

subsection \<open>Writing a file\<close>

text \<open>
  \<open>open(path, mode="w")\<close> and \<open>write\<close>: the file at \<open>path\<close> is created in its directory, or
  replaced when it exists. The directories on the way must exist.
\<close>

fun write_at :: "node \<Rightarrow> string list \<Rightarrow> string \<Rightarrow> error + node" where
  "write_at (File t) [] text = Inr (File text)"
| "write_at (Dir es) [] text = Inl IsADirectoryError"
| "write_at (File t) (c # cs) text = Inl NotADirectoryError"
| "write_at (Dir es) (c # cs) text =
     (if c = [] \<or> c = ''.'' then write_at (Dir es) cs text
      else case map_of es c of
             None \<Rightarrow> if cs = [] then Inr (Dir (assoc_set es c (File text))) else Inl FileNotFoundError
           | Some n \<Rightarrow>
               (case write_at n cs text of
                  Inl e \<Rightarrow> Inl e
                | Inr n' \<Rightarrow> Inr (Dir (assoc_set es c n'))))"

definition open_write :: "node \<Rightarrow> string \<Rightarrow> string \<Rightarrow> error + node" where
  "open_write root path text = write_at root (split_path path) text"

subsection \<open>The manifest loader\<close>

definition get_manifest :: "string \<Rightarrow> world \<Rightarrow> (error + json) \<times> world" where
  "get_manifest name w0 =
     (let path = PACKAGES_ROOT_SRC_DIR @ ''/'' @ name @ ''/'' @ MANIFEST_FILE;
          w = print ''[i] Reading manifest'' w0
      in case open_read (cwd w) path of
           Inl e \<Rightarrow>
             if e = FileNotFoundError
             then (Inr JNull, print ''[!] Package is invalid (no manifest)'' w)
             else (Inl e, w)
         | Inr text \<Rightarrow>
             (case json_loads text of
                Inl e \<Rightarrow> (Inl e, w)
              | Inr manifest \<Rightarrow> (Inr manifest, w)))"

subsection \<open>The package assembler\<close>

text \<open>
  The loop of \<open>build_package\<close> over the collected paths: each file is read and stored in
  \<open>manifest["files"]\<close> under its path, with its text and the digest of its text.
\<close>

fun build_files :: "string \<Rightarrow> string list \<Rightarrow> json \<Rightarrow> world \<Rightarrow> (error + json) \<times> world" where
  "build_files name [] manifest w = (Inr manifest, w)"
| "build_files name (path # paths) manifest w0 =
     (let w = print (''[+] '' @ path) w0
      in case open_read (cwd w)
                (PACKAGES_ROOT_SRC_DIR @ ''/'' @ name @ ''/'' @ PACKAGES_SRC_DIR @ ''/'' @ path) of
           Inl e \<Rightarrow> (Inl e, w)
         | Inr content \<Rightarrow>
             (case getitem manifest ''files'' of
                Inl e \<Rightarrow> (Inl e, w)
              | Inr files \<Rightarrow>
                  (case setitem files path
                          (JObject [(''content'', JString content),
                                    (''digest'', JString (sha256_hexdigest (str_encode content)))]) of
                     Inl e \<Rightarrow> (Inl e, w)
                   | Inr files' \<Rightarrow>
                       (case setitem manifest ''files'' files' of
                          Inl e \<Rightarrow> (Inl e, w)
                        | Inr manifest' \<Rightarrow> build_files name paths manifest' w))))"

definition build_package :: "string \<Rightarrow> world \<Rightarrow> (error + json) \<times> world" where
  "build_package name w0 =
     (case get_manifest name w0 of
        (Inl e, w) \<Rightarrow> (Inl e, w)
      | (Inr manifest, w) \<Rightarrow>
          if manifest \<noteq> JNull then
            (case setitem manifest ''files'' (JObject []) of
               Inl e \<Rightarrow> (Inl e, w)
             | Inr manifest' \<Rightarrow> build_files name (get_package_files (cwd w) name) manifest' w)
          else (Inr JNull, w))"

subsection \<open>The archive encoder\<close>

text \<open>
  \<open>zlib.compress\<close> at level 9 is the library's; the encoder takes it as the parameter
  \<open>zlib_compress\<close>.
\<close>

definition compress :: "(byte list \<Rightarrow> byte list) \<Rightarrow> json \<Rightarrow> byte list" where
  "compress zlib_compress package = b64encode (zlib_compress (str_encode (json_dumps package)))"

subsection \<open>The pool writer\<close>

definition write_package ::
  "(byte list \<Rightarrow> byte list) \<Rightarrow> string \<Rightarrow> world \<Rightarrow> (error + json) \<times> world" where
  "write_package zlib_compress name w0 =
     (case build_package name (print (''Packaging '' @ name) w0) of
        (Inl e, w) \<Rightarrow> (Inl e, w)
      | (Inr package, w) \<Rightarrow>
          if package \<noteq> JNull then
            (let data = compress zlib_compress package
             in case getitem package ''version'' of
                  Inl e \<Rightarrow> (Inl e, w)
                | Inr version \<Rightarrow>
                    (let path = PACKAGES_POOL_DIR @ ''/'' @ name @ ''.'' @ py_str version @ ''.ccp''
                     in case open_write (cwd w) path [] of
                          Inl e \<Rightarrow> (Inl e, w)
                        | Inr opened \<Rightarrow>
                            (case bytes_decode data of
                               Inl e \<Rightarrow> (Inl e, w\<lparr>cwd := opened\<rparr>)
                             | Inr text \<Rightarrow>
                                 (case open_write opened path text of
                                    Inl e \<Rightarrow> (Inl e, w\<lparr>cwd := opened\<rparr>)
                                  | Inr written \<Rightarrow>
                                      (Inr (JObject [(''version'', version),
                                                     (''digest'', JString (sha256_hexdigest data))]),
                                       w\<lparr>cwd := written\<rparr>)))))
          else (Inr JNull, w))"

subsection \<open>The driver and the index\<close>

fun main_loop ::
  "(byte list \<Rightarrow> byte list) \<Rightarrow> string list \<Rightarrow> json \<Rightarrow> world \<Rightarrow> (error + json) \<times> world" where
  "main_loop zlib_compress [] packages w = (Inr packages, w)"
| "main_loop zlib_compress (package # rest) packages w0 =
     (case write_package zlib_compress package w0 of
        (Inl e, w) \<Rightarrow> (Inl e, w)
      | (Inr index, w) \<Rightarrow>
          if index \<noteq> JNull then
            (case setitem packages package index of
               Inl e \<Rightarrow> (Inl e, w)
             | Inr packages' \<Rightarrow> main_loop zlib_compress rest packages' w)
          else main_loop zlib_compress rest packages w)"

definition main :: "(byte list \<Rightarrow> byte list) \<Rightarrow> world \<Rightarrow> (error + unit) \<times> world" where
  "main zlib_compress w0 =
     (case get_all_packages (cwd w0) of
        Inl e \<Rightarrow> (Inl e, w0)
      | Inr names \<Rightarrow>
          (case main_loop zlib_compress names (JObject []) w0 of
             (Inl e, w) \<Rightarrow> (Inl e, w)
           | (Inr packages, w1) \<Rightarrow>
               (let w = print ''Writing index'' w1
                in case open_write (cwd w) (PACKAGES_POOL_DIR @ ''/'' @ INDEX_FILE) (json_dumps packages) of
                     Inl e \<Rightarrow> (Inl e, w)
                   | Inr written \<Rightarrow> (Inr (), w\<lparr>cwd := written\<rparr>))))"

section \<open>Reference definitions\<close>

subsection \<open>What the collector is expected to list\<close>

text \<open>
  The regular files under a directory, each with the names of the directories that lead to
  it from the source root and with its text, in the order of the walk: the files of a
  directory first, then those of each subdirectory. \<open>rel_path\<close> is the path the collector
  forms for such a file: the directory names joined by \<open>/\<close>, then \<open>/\<close>, then the file name.
\<close>

fun join_names :: "string list \<Rightarrow> string" where
  "join_names [] = []"
| "join_names [d] = d"
| "join_names (d # e # ds) = d @ ''/'' @ join_names (e # ds)"

fun files_in :: "string list \<Rightarrow> (string \<times> node) list \<Rightarrow> (string list \<times> string \<times> string) list" where
  "files_in ds [] = []"
| "files_in ds ((name, File t) # es) = (ds, name, t) # files_in ds es"
| "files_in ds ((name, Dir sub) # es) = files_in ds es"

fun subdir_files :: "string list \<Rightarrow> (string \<times> node) list \<Rightarrow> (string list \<times> string \<times> string) list" where
  "subdir_files ds [] = []"
| "subdir_files ds ((name, File t) # es) = subdir_files ds es"
| "subdir_files ds ((name, Dir sub) # es) =
     files_in (ds @ [name]) sub @ subdir_files (ds @ [name]) sub @ subdir_files ds es"

definition files_under :: "(string \<times> node) list \<Rightarrow> (string list \<times> string \<times> string) list" where
  "files_under es = files_in [] es @ subdir_files [] es"

definition rel_path :: "string list \<times> string \<times> string \<Rightarrow> string" where
  "rel_path e = (case e of (ds, file, t) \<Rightarrow> join_names ds @ ''/'' @ file)"

definition valid_name :: "string \<Rightarrow> bool" where
  "valid_name name \<longleftrightarrow> name \<noteq> [] \<and> name \<noteq> ''.'' \<and> name \<noteq> ''..'' \<and> CHR ''/'' \<notin> set name"

fun wf_node :: "node \<Rightarrow> bool" and wf_entries :: "(string \<times> node) list \<Rightarrow> bool" where
  "wf_node (File t) = True"
| "wf_node (Dir es) = wf_entries es"
| "wf_entries [] = True"
| "wf_entries ((name, n) # es) = (valid_name name \<and> name \<notin> fst ` set es \<and> wf_node n \<and> wf_entries es)"


definition collect :: "string \<Rightarrow> (string \<times> string list \<times> string list) list \<Rightarrow> string list" where
  "collect path ws = concat (map (\<lambda>(root', _, files). map (\<lambda>file. removeprefix path root' @ ''/'' @ file) files) ws)"


definition slash_prefixed :: "string \<Rightarrow> bool" where
  "slash_prefixed p \<longleftrightarrow> p \<noteq> [] \<and> hd p = CHR ''/''"

text \<open>A package \<open>p\<close> with one file in the source root and one in a subdirectory.\<close>

definition tree_sub :: node where
  \<open>tree_sub =
     Dir [(''packages'',
           Dir [(''p'',
                 Dir [(''manifest.json'', File ''{"version": "1.0.0"}''),
                      (''source'',
                       Dir [(''a.txt'', File ''hello''),
                            (''sub'', Dir [(''b.txt'', File ''x'')])])])]),
          (''pool'', Dir [])]\<close>

subsection \<open>Decoding an archive\<close>

text \<open>
  The decoder is not part of \<open>build.py\<close>; it follows the words of the specification:
  base64-decode, then decompress, then parse JSON. \<open>zlib_decompress\<close> is the library's
  \<open>zlib.decompress\<close>, a parameter like \<open>zlib_compress\<close>.
\<close>

definition b64_index :: "byte \<Rightarrow> nat option" where
  "b64_index c =
     (let n = unat c
      in if 65 \<le> n \<and> n \<le> 90 then Some (n - 65)
         else if 97 \<le> n \<and> n \<le> 122 then Some (n - 71)
         else if 48 \<le> n \<and> n \<le> 57 then Some (n + 4)
         else if n = 43 then Some 62
         else if n = 47 then Some 63
         else None)"

fun b64decode :: "byte list \<Rightarrow> byte list option" where
  "b64decode [] = Some []"
| "b64decode (c0 # c1 # c2 # c3 # cs) =
     (case (b64_index c0, b64_index c1) of
        (Some s0, Some s1) \<Rightarrow>
          (if cs = [] \<and> c3 = 61 then
             (if c2 = 61 then Some [of_nat (s0 * 4 + s1 div 16)]
              else case b64_index c2 of
                     Some s2 \<Rightarrow> Some [of_nat (s0 * 4 + s1 div 16), of_nat (s1 mod 16 * 16 + s2 div 4)]
                   | None \<Rightarrow> None)
           else case (b64_index c2, b64_index c3, b64decode cs) of
                  (Some s2, Some s3, Some bs) \<Rightarrow>
                    Some (of_nat (s0 * 4 + s1 div 16) # of_nat (s1 mod 16 * 16 + s2 div 4)
                          # of_nat (s2 mod 4 * 64 + s3) # bs)
                | _ \<Rightarrow> None)
      | _ \<Rightarrow> None)"
| "b64decode cs = None"

subsection \<open>Paths of a package and example trees\<close>

definition manifest_path :: "string \<Rightarrow> string" where
  "manifest_path name = PACKAGES_ROOT_SRC_DIR @ ''/'' @ name @ ''/'' @ MANIFEST_FILE"

definition source_path :: "string \<Rightarrow> string" where
  "source_path name = PACKAGES_ROOT_SRC_DIR @ ''/'' @ name @ ''/'' @ PACKAGES_SRC_DIR @ ''/''"

text \<open>
  A package \<open>q\<close> without a manifest, then a package \<open>r\<close> whose manifest is not JSON.
\<close>

definition tree_bad :: node where
  \<open>tree_bad =
     Dir [(''packages'',
           Dir [(''q'', Dir [(''source'', Dir [(''a.txt'', File ''hello'')])]),
                (''r'', Dir [(''manifest.json'', File ''{"version": '')])]),
          (''pool'', Dir [])]\<close>

definition world_bad :: world where
  "world_bad = \<lparr>cwd = tree_bad, stdout = []\<rparr>"

definition world_bad_q :: world where
  "world_bad_q = \<lparr>cwd = tree_bad,
     stdout = [''Packaging q'', ''[i] Reading manifest'', ''[!] Package is invalid (no manifest)'']\<rparr>"


definition index_path :: string where
  "index_path = PACKAGES_POOL_DIR @ ''/'' @ INDEX_FILE"

definition world_skip :: world where
  "world_skip =
     \<lparr>cwd = Dir [(''packages'',
                   Dir [(''q'', Dir [(''source'', Dir [(''a.txt'', File ''hello'')])]),
                        (''s'', Dir [])]),
                  (''pool'', Dir [])],
      stdout = []\<rparr>"

definition world_skip_final :: world where
  "world_skip_final =
     \<lparr>cwd = Dir [(''packages'',
                   Dir [(''q'', Dir [(''source'', Dir [(''a.txt'', File ''hello'')])]),
                        (''s'', Dir [])]),
                  (''pool'', Dir [(''index.json'', File ''{}'')])],
      stdout = [''Packaging q'', ''[i] Reading manifest'', ''[!] Package is invalid (no manifest)'',
                ''Packaging s'', ''[i] Reading manifest'', ''[!] Package is invalid (no manifest)'',
                ''Writing index'']\<rparr>"


definition components :: "string list \<times> string \<times> string \<Rightarrow> string list" where
  "components e = fst e @ [fst (snd e)]"


subsection \<open>The expected package document\<close>

text \<open>
  The document of a package: the manifest with \<open>files\<close> set to one entry per listed file, in
  the order of the walk. A package without a source directory has no files.
\<close>

definition file_entry :: "string \<Rightarrow> json" where
  "file_entry content =
     JObject [(''content'', JString content),
              (''digest'', JString (sha256_hexdigest (str_encode content)))]"

definition files_mapping :: "(string \<times> node) list \<Rightarrow> (string \<times> json) list" where
  "files_mapping es = map (\<lambda>e. (rel_path e, file_entry (snd (snd e)))) (files_under es)"

definition source_entries :: "node \<Rightarrow> string \<Rightarrow> (string \<times> node) list" where
  "source_entries root name =
     (case resolve root (source_path name) of Inr (Dir es) \<Rightarrow> es | _ \<Rightarrow> [])"

definition package_document :: "(string \<times> json) list \<Rightarrow> (string \<times> node) list \<Rightarrow> json" where
  "package_document manifest es = JObject (assoc_set manifest ''files'' (JObject (files_mapping es)))"


text \<open>A package whose manifest already has a \<open>files\<close> field.\<close>

definition world_files :: world where
  \<open>world_files =
     \<lparr>cwd = Dir [(''packages'',
                   Dir [(''p'',
                         Dir [(''manifest.json'', File ''{"files": 5, "version": "1.0.0"}''),
                              (''source'', Dir [(''a.txt'', File ''hello'')])])]),
                  (''pool'', Dir [])],
      stdout = []\<rparr>\<close>


subsection \<open>The archive file and the index entry\<close>

definition ascii_text :: "byte list \<Rightarrow> string" where
  "ascii_text bs = map (\<lambda>b. char_of (unat b)) bs"

definition archive_path :: "string \<Rightarrow> json \<Rightarrow> string" where
  "archive_path name version = PACKAGES_POOL_DIR @ ''/'' @ name @ ''.'' @ py_str version @ ''.ccp''"

definition can_write :: "node \<Rightarrow> string \<Rightarrow> bool" where
  "can_write root path = (case open_write root path [] of Inl e \<Rightarrow> False | Inr n \<Rightarrow> True)"

definition index_entry :: "(byte list \<Rightarrow> byte list) \<Rightarrow> json \<Rightarrow> json \<Rightarrow> json" where
  "index_entry zlib_compress version document =
     JObject [(''version'', version),
              (''digest'', JString (sha256_hexdigest (compress zlib_compress document)))]"




text \<open>A package whose manifest has no \<open>version\<close>, and one whose source directory is empty.\<close>

definition world_noversion :: world where
  \<open>world_noversion =
     \<lparr>cwd = Dir [(''packages'',
                   Dir [(''p'',
                         Dir [(''manifest.json'', File ''{"name": "p"}''),
                              (''source'', Dir [(''a.txt'', File ''hello'')])])]),
                  (''pool'', Dir [])],
      stdout = []\<rparr>\<close>

definition world_empty :: world where
  \<open>world_empty =
     \<lparr>cwd = Dir [(''packages'',
                   Dir [(''e'',
                         Dir [(''manifest.json'', File ''{"version": 2}''),
                              (''source'', Dir [])])]),
                  (''pool'', Dir [])],
      stdout = []\<rparr>\<close>


section \<open>Properties\<close>

subsection \<open>The file collector\<close>

lemma removeprefix_append [simp]: "removeprefix p (p @ x) = x"
  by (simp add: removeprefix_def)

lemma collect_Nil [simp]: "collect p [] = []"
  by (simp add: collect_def)

lemma collect_Cons [simp]:
  "collect p ((p @ r, dns, fs) # ws) = map (\<lambda>file. r @ ''/'' @ file) fs @ collect p ws"
  by (simp add: collect_def)

lemma collect_append [simp]: "collect p (xs @ ys) = collect p xs @ collect p ys"
  by (simp add: collect_def)

lemma files_in_filenames:
  "map rel_path (files_in ds es) = map (\<lambda>file. join_names ds @ ''/'' @ file) (filenames es)"
  by (induction ds es rule: files_in.induct) (simp_all add: rel_path_def)

lemma join_names_snoc:
  "ds \<noteq> [] \<Longrightarrow> join_names (ds @ [name]) = join_names ds @ ''/'' @ name"
  by (induction ds rule: join_names.induct) simp_all

lemma valid_name_last: "valid_name d \<Longrightarrow> last d \<noteq> CHR ''/''"
  by (metis last_in_set valid_name_def)

lemma valid_name_hd: "valid_name d \<Longrightarrow> hd d \<noteq> CHR ''/''"
  by (metis hd_in_set valid_name_def)

lemma valid_name_not_Nil: "valid_name d \<Longrightarrow> d \<noteq> []"
  by (simp add: valid_name_def)

lemma join_names_Nil_iff: "\<forall>d\<in>set ds. valid_name d \<Longrightarrow> join_names ds = [] \<longleftrightarrow> ds = []"
  by (induction ds rule: join_names.induct) (auto simp: valid_name_not_Nil)

lemma last_join_names:
  "ds \<noteq> [] \<Longrightarrow> \<forall>d\<in>set ds. valid_name d \<Longrightarrow> last (join_names ds) \<noteq> CHR ''/''"
proof (induction ds rule: join_names.induct)
  case 1
  then show ?case by simp
next
  case (2 d)
  then show ?case by (simp add: valid_name_last)
next
  case (3 d e ds)
  then have "join_names (e # ds) \<noteq> []"
    using join_names_Nil_iff [of "e # ds"] by simp
  with 3 show ?case by simp
qed

lemma path_join_under:
  assumes "p \<noteq> []" "last p = CHR ''/''" "\<forall>d\<in>set ds. valid_name d" "valid_name name"
  shows "path_join (p @ join_names ds) name = p @ join_names (ds @ [name])"
proof (cases "ds = []")
  case True
  with assms show ?thesis
    by (simp add: path_join_def valid_name_hd valid_name_not_Nil)
next
  case False
  with assms have "last (p @ join_names ds) \<noteq> CHR ''/''"
    by (simp add: last_join_names join_names_Nil_iff)
  with assms False show ?thesis
    by (simp add: path_join_def valid_name_hd valid_name_not_Nil join_names_snoc join_names_Nil_iff)
qed

lemma walk_collect:
  "wf_node n \<Longrightarrow> p \<noteq> [] \<Longrightarrow> last p = CHR ''/'' \<Longrightarrow> \<forall>d\<in>set ds. valid_name d \<Longrightarrow> dir = p @ join_names ds \<Longrightarrow>
     collect p (walk dir n) = (case n of File t \<Rightarrow> [] | Dir es \<Rightarrow> map rel_path (files_in ds es @ subdir_files ds es))"
  "wf_entries es \<Longrightarrow> p \<noteq> [] \<Longrightarrow> last p = CHR ''/'' \<Longrightarrow> \<forall>d\<in>set ds. valid_name d \<Longrightarrow> dir = p @ join_names ds \<Longrightarrow>
     collect p (walk_dirs dir es) = map rel_path (subdir_files ds es)"
proof (induction dir n and dir es arbitrary: ds and ds rule: walk_walk_dirs.induct)
  case (1 dir t)
  then show ?case by simp
next
  case (2 dir es)
  then show ?case by (simp add: files_in_filenames)
next
  case (3 dir)
  then show ?case by simp
next
  case (4 dir name t es)
  then show ?case by simp
next
  case (5 dir name sub es)
  have pj: "path_join dir name = p @ join_names (ds @ [name])"
    using 5 by (simp add: path_join_under)
  have "collect p (walk (path_join dir name) (Dir sub))
      = map rel_path (files_in (ds @ [name]) sub @ subdir_files (ds @ [name]) sub)"
    using 5 pj by (simp del: walk.simps)
  moreover have "collect p (walk_dirs dir es) = map rel_path (subdir_files ds es)"
    using 5 by simp
  ultimately show ?case by (simp del: walk.simps)
qed

lemma get_package_files_eq:
  assumes "resolve root (PACKAGES_ROOT_SRC_DIR @ ''/'' @ name @ ''/'' @ PACKAGES_SRC_DIR @ ''/'') = Inr (Dir es)"
    and "wf_entries es"
  shows "get_package_files root name = map rel_path (files_under es)"
proof -
  let ?p = "PACKAGES_ROOT_SRC_DIR @ ''/'' @ name @ ''/'' @ PACKAGES_SRC_DIR @ ''/''"
  have "collect ?p (walk (?p @ join_names []) (Dir es)) = map rel_path (files_in [] es @ subdir_files [] es)"
    using walk_collect(1) [of "Dir es" ?p "[]" "?p @ join_names []"] assms(2) by simp
  then show ?thesis
    using assms(1) by (simp add: get_package_files_def os_walk_def collect_def files_under_def)
qed


lemma files_in_dirs: "e \<in> set (files_in ds es) \<Longrightarrow> fst e = ds"
  by (induction ds es rule: files_in.induct) auto

lemma subdir_files_dirs:
  "wf_entries es \<Longrightarrow> e \<in> set (subdir_files ds es) \<Longrightarrow>
   \<exists>more. more \<noteq> [] \<and> fst e = ds @ more \<and> (\<forall>d\<in>set more. valid_name d)"
proof (induction ds es rule: subdir_files.induct)
  case (1 ds)
  then show ?case by simp
next
  case (2 ds name t es)
  then show ?case by simp
next
  case (3 ds name sub es)
  from "3.prems" have wf: "valid_name name" "wf_entries sub" "wf_entries es" by simp_all
  from "3.prems"(2) consider
      (here) "e \<in> set (files_in (ds @ [name]) sub)"
    | (below) "e \<in> set (subdir_files (ds @ [name]) sub)"
    | (later) "e \<in> set (subdir_files ds es)"
    by auto
  then show ?case
  proof cases
    case here
    then have "fst e = ds @ [name]" by (rule files_in_dirs)
    with wf(1) show ?thesis by (intro exI [of _ "[name]"]) simp
  next
    case below
    with "3.IH"(1) wf(2) obtain more
      where "more \<noteq> []" "fst e = (ds @ [name]) @ more" "\<forall>d\<in>set more. valid_name d"
      by blast
    with wf(1) show ?thesis by (intro exI [of _ "name # more"]) simp
  next
    case later
    with "3.IH"(2) wf(3) show ?thesis by blast
  qed
qed

lemma hd_join_names:
  "ds \<noteq> [] \<Longrightarrow> valid_name (hd ds) \<Longrightarrow> join_names ds \<noteq> [] \<and> hd (join_names ds) \<noteq> CHR ''/''"
  by (induction ds rule: join_names.induct)
     (simp_all add: valid_name_not_Nil valid_name_hd)

lemma slash_prefixed_rel_path:
  assumes "wf_entries es" "e \<in> set (files_under es)"
  shows "slash_prefixed (rel_path e) \<longleftrightarrow> fst e = []"
proof -
  from assms(2) consider (top) "e \<in> set (files_in [] es)" | (sub) "e \<in> set (subdir_files [] es)"
    by (auto simp: files_under_def)
  then show ?thesis
  proof cases
    case top
    then have "fst e = []" by (rule files_in_dirs)
    then show ?thesis by (cases e) (simp add: rel_path_def slash_prefixed_def)
  next
    case sub
    with assms(1) obtain more where m: "more \<noteq> []" "fst e = more" "\<forall>d\<in>set more. valid_name d"
      using subdir_files_dirs [of es e "[]"] by auto
    then have "join_names more \<noteq> [] \<and> hd (join_names more) \<noteq> CHR ''/''"
      by (intro hd_join_names) simp_all
    with m show ?thesis by (cases e) (simp add: rel_path_def slash_prefixed_def)
  qed
qed

text \<open>
  Claim C2, as the code has it. The claim says that every path of the collector begins
  with \<open>/\<close>, also for files in subdirectories. The collector forms
  \<open>root.removeprefix(path) + "/" + file\<close> with \<open>path\<close> ending in \<open>/\<close>, so the path of a
  file is the names of its directories below the source root joined by \<open>/\<close>, then \<open>/\<close>, then
  the file name: it begins with \<open>/\<close> exactly when the file lies directly in the source
  root.
\<close>

theorem C2_collected_paths:
  assumes "resolve root (PACKAGES_ROOT_SRC_DIR @ ''/'' @ name @ ''/'' @ PACKAGES_SRC_DIR @ ''/'') = Inr (Dir es)"
    and "wf_entries es"
  shows "get_package_files root name = map rel_path (files_under es) \<and>
         (\<forall>e\<in>set (files_under es). slash_prefixed (rel_path e) \<longleftrightarrow> fst e = [])"
  using assms get_package_files_eq slash_prefixed_rel_path by blast

lemma resolve_tree_sub:
  "resolve tree_sub (PACKAGES_ROOT_SRC_DIR @ ''/'' @ ''p'' @ ''/'' @ PACKAGES_SRC_DIR @ ''/'')
     = Inr (Dir [(''a.txt'', File ''hello''), (''sub'', Dir [(''b.txt'', File ''x'')])])"
  by (simp add: resolve_def tree_sub_def PACKAGES_ROOT_SRC_DIR_def PACKAGES_SRC_DIR_def)

lemma wf_tree_sub:
  "wf_entries [(''a.txt'', File ''hello''), (''sub'', Dir [(''b.txt'', File ''x'')])]"
  by (simp add: valid_name_def)

theorem C2_collected_paths_witness:
  "get_package_files tree_sub ''p'' = [''/a.txt'', ''sub/b.txt''] \<and>
   slash_prefixed ''/a.txt'' \<and> \<not> slash_prefixed ''sub/b.txt''"
  using C2_collected_paths [OF resolve_tree_sub wf_tree_sub]
  by (simp add: files_under_def rel_path_def slash_prefixed_def)

text \<open>
  The claim C2 as stated fails: the file \<open>b.txt\<close> in the subdirectory \<open>sub\<close> is collected
  as \<open>sub/b.txt\<close>.
\<close>

theorem C2_counterexample:
  "\<not> list_all slash_prefixed (get_package_files tree_sub ''p'')"
  by (simp add: get_package_files_def os_walk_def resolve_def tree_sub_def path_join_def
      removeprefix_def slash_prefixed_def PACKAGES_ROOT_SRC_DIR_def PACKAGES_SRC_DIR_def)

subsection \<open>The manifest loader\<close>

lemma get_manifest_absent:
  "open_read (cwd w) (manifest_path name) = Inl FileNotFoundError \<Longrightarrow>
   get_manifest name w =
     (Inr JNull, print ''[!] Package is invalid (no manifest)'' (print ''[i] Reading manifest'' w))"
  by (simp add: get_manifest_def manifest_path_def print_def Let_def)

lemma get_manifest_error:
  "open_read (cwd w) (manifest_path name) = Inr text \<Longrightarrow> json_loads text = Inl e \<Longrightarrow>
   get_manifest name w = (Inl e, print ''[i] Reading manifest'' w)"
  by (simp add: get_manifest_def manifest_path_def print_def Let_def)

lemma get_manifest_ok:
  "open_read (cwd w) (manifest_path name) = Inr text \<Longrightarrow> json_loads text = Inr manifest \<Longrightarrow>
   get_manifest name w = (Inr manifest, print ''[i] Reading manifest'' w)"
  by (simp add: get_manifest_def manifest_path_def print_def Let_def)

lemma cwd_print [simp]: "cwd (print line w) = cwd w"
  by (simp add: print_def)

lemma main_loop_append:
  "main_loop zc (xs @ ys) pk w =
     (case main_loop zc xs pk w of
        (Inl e, w') \<Rightarrow> (Inl e, w')
      | (Inr pk', w') \<Rightarrow> main_loop zc ys pk' w')"
  by (induction xs arbitrary: pk w) (auto split: prod.splits sum.splits)

lemma main_loop_raise:
  "write_package zc name w = (Inl e, w') \<Longrightarrow> main_loop zc (name # rest) pk w = (Inl e, w')"
  by simp

text \<open>
  Claim C3. When the manifest file of a package is absent, \<open>get_manifest\<close> returns \<open>None\<close>
  and raises nothing. When the file is present and is not JSON, \<open>get_manifest\<close> raises
  \<open>JSONDecodeError\<close>; nothing catches it, so the run ends with it at that package, whatever
  packages came before, and no index is written.
\<close>

theorem C3_manifest_loader:
  "(open_read (cwd w) (manifest_path name) = Inl FileNotFoundError \<longrightarrow>
      fst (get_manifest name w) = Inr JNull) \<and>
   (\<forall>text. open_read (cwd w) (manifest_path name) = Inr text \<and> json_loads text = Inl JSONDecodeError \<longrightarrow>
      fst (get_manifest name w) = Inl JSONDecodeError \<and>
      (\<forall>w0 before rest pk.
         get_all_packages (cwd w0) = Inr (before @ name # rest) \<and>
         main_loop zc before (JObject []) w0 = (Inr pk, w) \<longrightarrow>
         fst (main zc w0) = Inl JSONDecodeError \<and> cwd (snd (main zc w0)) = cwd w))"
proof (intro conjI allI impI)
  assume "open_read (cwd w) (manifest_path name) = Inl FileNotFoundError"
  then show "fst (get_manifest name w) = Inr JNull"
    by (simp add: get_manifest_absent)
next
  fix t
  assume bad: "open_read (cwd w) (manifest_path name) = Inr t \<and> json_loads t = Inl JSONDecodeError"
  then show "fst (get_manifest name w) = Inl JSONDecodeError"
    by (simp add: get_manifest_error)
  fix w0 before rest pk
  assume run: "get_all_packages (cwd w0) = Inr (before @ name # rest) \<and>
         main_loop zc before (JObject []) w0 = (Inr pk, w)"
  let ?w = "print ''[i] Reading manifest'' (print (''Packaging '' @ name) w)"
  from bad have "get_manifest name (print (''Packaging '' @ name) w) = (Inl JSONDecodeError, ?w)"
    by (intro get_manifest_error [of _ _ t]) simp_all
  then have "write_package zc name w = (Inl JSONDecodeError, ?w)"
    by (simp add: write_package_def build_package_def)
  then have "main_loop zc (name # rest) pk w = (Inl JSONDecodeError, ?w)"
    by simp
  with run have "main zc w0 = (Inl JSONDecodeError, ?w)"
    by (simp add: main_def main_loop_append del: main_loop.simps)
  then show "fst (main zc w0) = Inl JSONDecodeError" "cwd (snd (main zc w0)) = cwd w"
    by simp_all
qed

lemma tree_bad_q_absent: "open_read tree_bad (manifest_path ''q'') = Inl FileNotFoundError"
  by (simp add: open_read_def resolve_def tree_bad_def manifest_path_def PACKAGES_ROOT_SRC_DIR_def MANIFEST_FILE_def)

lemma tree_bad_r_text: \<open>open_read tree_bad (manifest_path ''r'') = Inr ''{"version": ''\<close>
  by (simp add: open_read_def resolve_def tree_bad_def manifest_path_def PACKAGES_ROOT_SRC_DIR_def MANIFEST_FILE_def)

lemma tree_bad_r_malformed: \<open>json_loads ''{"version": '' = Inl JSONDecodeError\<close>
  by code_simp

lemma tree_bad_listing: "get_all_packages tree_bad = Inr ([''q''] @ ''r'' # [])"
  by (simp add: get_all_packages_def os_scandir_def resolve_def tree_bad_def PACKAGES_ROOT_SRC_DIR_def)

lemma world_bad_after_q: "main_loop id [''q''] (JObject []) world_bad = (Inr (JObject []), world_bad_q)"
  using tree_bad_q_absent
  by (simp add: write_package_def build_package_def get_manifest_absent world_bad_def world_bad_q_def print_def)

theorem C3_manifest_loader_witness:
  "fst (get_manifest ''q'' world_bad) = Inr JNull \<and>
   fst (get_manifest ''r'' world_bad_q) = Inl JSONDecodeError \<and>
   fst (main id world_bad) = Inl JSONDecodeError"
proof -
  have q: "open_read (cwd world_bad) (manifest_path ''q'') = Inl FileNotFoundError"
    using tree_bad_q_absent by (simp add: world_bad_def)
  have r: \<open>open_read (cwd world_bad_q) (manifest_path ''r'') = Inr ''{"version": '' \<and>
           json_loads ''{"version": '' = Inl JSONDecodeError\<close>
    using tree_bad_r_text tree_bad_r_malformed by (simp add: world_bad_q_def)
  have run: "get_all_packages (cwd world_bad) = Inr ([''q''] @ ''r'' # []) \<and>
             main_loop id [''q''] (JObject []) world_bad = (Inr (JObject []), world_bad_q)"
    using tree_bad_listing world_bad_after_q by (simp add: world_bad_def)
  from C3_manifest_loader [of world_bad "''q''" id] q
  have "fst (get_manifest ''q'' world_bad) = Inr JNull" by blast
  moreover from C3_manifest_loader [of world_bad_q "''r''" id] r run
  have "fst (get_manifest ''r'' world_bad_q) = Inl JSONDecodeError \<and>
        fst (main id world_bad) = Inl JSONDecodeError" by blast
  ultimately show ?thesis by simp
qed

subsection \<open>Dictionaries and the file system\<close>

lemma map_of_assoc_set: "map_of (assoc_set kvs k v) = (map_of kvs)(k \<mapsto> v)"
  by (induction kvs k v rule: assoc_set.induct) auto

lemma keys_assoc_set: "fst ` set (assoc_set kvs k v) = insert k (fst ` set kvs)"
  by (induction kvs k v rule: assoc_set.induct) auto

lemma write_at_Dir: "write_at (Dir es) cs t = Inr n' \<Longrightarrow> \<exists>es'. n' = Dir es'"
  by (induction cs arbitrary: es) (auto split: if_splits option.splits sum.splits)

lemma lookup_write_at: "write_at n cs t = Inr n' \<Longrightarrow> lookup n' cs = Inr (File t)"
proof (induction n cs t arbitrary: n' rule: write_at.induct)
  case (4 es c cs t)
  show ?case
  proof (cases "c = [] \<or> c = ''.''")
    case True
    with 4 have "lookup n' cs = Inr (File t)" by auto
    moreover from True "4.prems" obtain es' where "n' = Dir es'"
      using write_at_Dir [of es cs t n'] by auto
    ultimately show ?thesis using True by auto
  next
    case False
    show ?thesis
    proof (cases "map_of es c")
      case None
      with False "4.prems" show ?thesis
        by (auto simp: map_of_assoc_set split: if_splits)
    next
      case (Some m)
      with False "4.prems" obtain m' where m': "write_at m cs t = Inr m'" "n' = Dir (assoc_set es c m')"
        by (auto split: sum.splits)
      with "4.IH"(2) [OF False Some] have "lookup m' cs = Inr (File t)" by simp
      with False m' show ?thesis by (simp add: map_of_assoc_set)
    qed
  qed
qed auto

lemma open_read_open_write:
  "open_write root path t = Inr root' \<Longrightarrow> open_read root' path = Inr t"
  by (simp add: open_write_def open_read_def resolve_def lookup_write_at)

subsection \<open>Packages without a manifest\<close>

lemma write_package_skip:
  assumes "open_read (cwd w) (manifest_path name) = Inl FileNotFoundError"
  shows "write_package zc name w =
           (Inr JNull, print ''[!] Package is invalid (no manifest)''
                         (print ''[i] Reading manifest'' (print (''Packaging '' @ name) w)))"
  using assms by (simp add: write_package_def build_package_def get_manifest_absent)

lemma main_loop_keys:
  "main_loop zc names (JObject kvs) w = (Inr idx, w') \<Longrightarrow>
   \<exists>kvs'. idx = JObject kvs' \<and> fst ` set kvs' \<subseteq> fst ` set kvs \<union> set names"
proof (induction names arbitrary: kvs w)
  case Nil
  then show ?case by auto
next
  case (Cons name names)
  obtain r w1 where wp: "write_package zc name w = (r, w1)" by (cases "write_package zc name w")
  with Cons.prems obtain index where r: "r = Inr index" by (cases r) auto
  show ?case
  proof (cases "index = JNull")
    case True
    with Cons.prems wp r have "main_loop zc names (JObject kvs) w1 = (Inr idx, w')" by simp
    from Cons.IH [OF this] show ?thesis by auto
  next
    case False
    with Cons.prems wp r
    have "main_loop zc names (JObject (assoc_set kvs name index)) w1 = (Inr idx, w')"
      by (simp add: setitem_def)
    from Cons.IH [OF this] show ?thesis by (auto simp: keys_assoc_set)
  qed
qed

lemma getitem_absent: "k \<notin> fst ` set kvs \<Longrightarrow> getitem (JObject kvs) k = Inl KeyError"
  by (cases "map_of kvs k") (auto simp: getitem_def dest: map_of_SomeD intro: rev_image_eqI)

text \<open>
  Claim C5. For a package whose manifest file is missing, \<open>write_package\<close> returns \<open>None\<close>
  and leaves the file system as it was, so no archive is written; the driver goes on with
  the remaining packages and the same index; and when the run completes, the text of
  \<open>index.json\<close> is the dump of an index without a key for that package.
\<close>

theorem C5_missing_manifest:
  assumes "open_read (cwd w) (manifest_path name) = Inl FileNotFoundError"
  shows "\<exists>w'. write_package zc name w = (Inr JNull, w') \<and> cwd w' = cwd w \<and>
           (\<forall>rest packages. main_loop zc (name # rest) packages w = main_loop zc rest packages w') \<and>
           (\<forall>w0 before rest pk final.
              get_all_packages (cwd w0) = Inr (before @ name # rest) \<and>
              name \<notin> set before \<and> name \<notin> set rest \<and>
              main_loop zc before (JObject []) w0 = (Inr pk, w) \<and>
              main zc w0 = (Inr (), final) \<longrightarrow>
              (\<exists>index. open_read (cwd final) index_path = Inr (json_dumps index) \<and>
                       getitem index name = Inl KeyError))"
proof -
  let ?w' = "print ''[!] Package is invalid (no manifest)''
               (print ''[i] Reading manifest'' (print (''Packaging '' @ name) w))"
  have skip: "write_package zc name w = (Inr JNull, ?w')"
    using assms by (rule write_package_skip)
  have same: "cwd ?w' = cwd w" by simp
  have step: "\<forall>rest packages. main_loop zc (name # rest) packages w = main_loop zc rest packages ?w'"
    using skip by simp
  have index: "\<exists>index. open_read (cwd final) index_path = Inr (json_dumps index) \<and>
                       getitem index name = Inl KeyError"
    if run: "get_all_packages (cwd w0) = Inr (before @ name # rest) \<and>
              name \<notin> set before \<and> name \<notin> set rest \<and>
              main_loop zc before (JObject []) w0 = (Inr pk, w) \<and>
              main zc w0 = (Inr (), final)"
    for w0 before rest pk final
  proof -
    from run obtain kvs where pk: "pk = JObject kvs" "fst ` set kvs \<subseteq> set before"
      using main_loop_keys [of zc before "[]" w0 pk w] by auto
    from run pk have loop:
      "main_loop zc (before @ name # rest) (JObject []) w0 = main_loop zc rest (JObject kvs) ?w'"
      using step by (simp add: main_loop_append del: main_loop.simps)
    obtain r w1 where r: "main_loop zc rest (JObject kvs) ?w' = (r, w1)"
      by (cases "main_loop zc rest (JObject kvs) ?w'")
    with run loop obtain index where index: "r = Inr index"
      by (cases r) (auto simp: main_def)
    with r obtain kvs' where kvs': "index = JObject kvs'" "fst ` set kvs' \<subseteq> fst ` set kvs \<union> set rest"
      using main_loop_keys [of zc rest kvs ?w' index w1] by auto
    from pk run have "name \<notin> fst ` set kvs \<union> set rest" by blast
    with kvs'(2) have "name \<notin> fst ` set kvs'" by blast
    then have "getitem index name = Inl KeyError"
      using kvs' by (simp add: getitem_absent)
    moreover from run loop r index
    obtain written where "open_write (cwd w1) index_path (json_dumps index) = Inr written"
        "cwd final = written"
      by (auto simp: main_def index_path_def Let_def split: sum.splits)
    then have "open_read (cwd final) index_path = Inr (json_dumps index)"
      by (simp add: open_read_open_write)
    ultimately show ?thesis by blast
  qed
  show ?thesis
    by (rule exI [of _ ?w'], intro conjI allI impI) (use skip same step index in \<open>blast+\<close>)
qed

lemma world_skip_absent:
  "open_read (cwd world_skip) (manifest_path ''q'') = Inl FileNotFoundError"
  "open_read (cwd world_skip) (manifest_path ''s'') = Inl FileNotFoundError"
  by (simp_all add: world_skip_def open_read_def resolve_def manifest_path_def
      PACKAGES_ROOT_SRC_DIR_def MANIFEST_FILE_def)

lemma world_skip_listing: "get_all_packages (cwd world_skip) = Inr ([] @ ''q'' # [''s''])"
  by (simp add: world_skip_def get_all_packages_def os_scandir_def resolve_def PACKAGES_ROOT_SRC_DIR_def)

lemma world_skip_main: "main id world_skip = (Inr (), world_skip_final)"
proof -
  have "cwd (print l world_skip) = cwd world_skip" for l by simp
  have s: "open_read (cwd w) (manifest_path ''s'') = Inl FileNotFoundError"
    if "cwd w = cwd world_skip" for w
    using that world_skip_absent by simp
  show ?thesis
    using world_skip_listing world_skip_absent
    by (simp add: main_def write_package_skip s)
       (simp add: world_skip_def world_skip_final_def print_def open_write_def
          PACKAGES_POOL_DIR_def INDEX_FILE_def)
qed

theorem C5_missing_manifest_witness:
  "write_package id ''q'' world_skip =
     (Inr JNull, world_skip\<lparr>stdout := [''Packaging q'', ''[i] Reading manifest'',
                                        ''[!] Package is invalid (no manifest)'']\<rparr>) \<and>
   open_read (cwd world_skip_final) index_path = Inr ''{}''"
proof -
  from C5_missing_manifest [OF world_skip_absent(1), of id]
  obtain w' where w': "write_package id ''q'' world_skip = (Inr JNull, w')"
    and run: "\<forall>w0 before rest pk final.
              get_all_packages (cwd w0) = Inr (before @ ''q'' # rest) \<and>
              ''q'' \<notin> set before \<and> ''q'' \<notin> set rest \<and>
              main_loop id before (JObject []) w0 = (Inr pk, world_skip) \<and>
              main id w0 = (Inr (), final) \<longrightarrow>
              (\<exists>index. open_read (cwd final) index_path = Inr (json_dumps index) \<and>
                       getitem index ''q'' = Inl KeyError)"
    by blast
  from run world_skip_listing world_skip_main
  have "\<exists>index. open_read (cwd world_skip_final) index_path = Inr (json_dumps index) \<and>
                getitem index ''q'' = Inl KeyError"
    by (elim allE [of _ world_skip] allE [of _ "[]"] allE [of _ "[''s'']"] allE [of _ "JObject []"]
        allE [of _ world_skip_final]) simp
  then show ?thesis
    using w' world_skip_absent
    by (auto simp: write_package_skip print_def world_skip_def world_skip_final_def index_path_def
        open_read_def resolve_def PACKAGES_POOL_DIR_def INDEX_FILE_def)
qed

subsection \<open>Path strings and their components\<close>

lemma split_path_not_Nil: "split_path s \<noteq> []"
  by (induction s) (auto split: list.splits)

lemma split_path_slash: "split_path (a @ CHR ''/'' # b) = split_path a @ split_path b"
proof (induction a)
  case Nil
  show ?case by simp
next
  case (Cons c a)
  obtain p ps where "split_path a = p # ps"
    using split_path_not_Nil [of a] by (cases "split_path a") auto
  with Cons show ?case by simp
qed

lemma split_path_name: "CHR ''/'' \<notin> set s \<Longrightarrow> split_path s = [s]"
  by (induction s) auto

lemma split_path_join_names:
  "ds \<noteq> [] \<Longrightarrow> \<forall>d\<in>set ds. valid_name d \<Longrightarrow> split_path (join_names ds) = ds"
proof (induction ds rule: join_names.induct)
  case 1
  then show ?case by simp
next
  case (2 d)
  then show ?case by (simp add: split_path_name valid_name_def)
next
  case (3 d e ds)
  then show ?case by (simp add: split_path_slash split_path_name valid_name_def)
qed

lemma split_path_rel_path:
  assumes "\<forall>d\<in>set ds. valid_name d" "valid_name f"
  shows "split_path (rel_path (ds, f, t)) = (if ds = [] then [[], f] else ds @ [f])"
  using assms
  by (auto simp: rel_path_def split_path_slash split_path_join_names split_path_name valid_name_def)

lemma lookup_append:
  "lookup n (xs @ ys) = (case lookup n xs of Inl e \<Rightarrow> Inl e | Inr m \<Rightarrow> lookup m ys)"
  by (induction n xs rule: lookup.induct) (auto split: option.splits)

lemma lookup_Dir_empty: "lookup (Dir es) ([] # cs) = lookup (Dir es) cs"
  by simp

lemma lookup_other:
  "c \<noteq> [] \<Longrightarrow> c \<noteq> ''.'' \<Longrightarrow> c \<noteq> k \<Longrightarrow> lookup (Dir ((k, n) # es)) (c # cs) = lookup (Dir es) (c # cs)"
  by simp

lemma lookup_in_dir:
  "lookup (Dir es) (c # cs) = Inr x \<Longrightarrow> c \<noteq> [] \<Longrightarrow> c \<noteq> ''.'' \<Longrightarrow> c \<in> fst ` set es"
  by (auto split: option.splits dest: map_of_SomeD intro: rev_image_eqI)

subsection \<open>Every listed file can be read\<close>

lemma files_in_lookup:
  "wf_entries es \<Longrightarrow> (ds, f, t) \<in> set (files_in ds0 es) \<Longrightarrow>
   ds = ds0 \<and> valid_name f \<and> lookup (Dir es) [f] = Inr (File t)"
proof (induction ds0 es rule: files_in.induct)
  case (1 ds0)
  then show ?case by simp
next
  case (2 ds0 name u es)
  show ?case
  proof (cases "(ds, f, t) = (ds0, name, u)")
    case True
    with "2.prems" show ?thesis by (auto simp: valid_name_def)
  next
    case False
    with "2.prems" have "(ds, f, t) \<in> set (files_in ds0 es)" "wf_entries es" by auto
    with "2.IH" have IH: "ds = ds0" "valid_name f" "lookup (Dir es) [f] = Inr (File t)" by blast+
    then have "f \<in> fst ` set es"
      by (intro lookup_in_dir [of es f "[]"]) (auto simp: valid_name_def)
    with "2.prems" have "f \<noteq> name" by auto
    with IH show ?thesis by (auto simp: valid_name_def)
  qed
next
  case (3 ds0 name sub es)
  from "3.prems" have "(ds, f, t) \<in> set (files_in ds0 es)" "wf_entries es" by auto
  with "3.IH" have IH: "ds = ds0" "valid_name f" "lookup (Dir es) [f] = Inr (File t)" by blast+
  then have "f \<in> fst ` set es"
    by (intro lookup_in_dir [of es f "[]"]) (auto simp: valid_name_def)
  with "3.prems" have "f \<noteq> name" by auto
  with IH show ?case by (auto simp: valid_name_def)
qed

lemma subdir_files_lookup:
  "wf_entries es \<Longrightarrow> (ds, f, t) \<in> set (subdir_files ds0 es) \<Longrightarrow>
   \<exists>more. ds = ds0 @ more \<and> more \<noteq> [] \<and> (\<forall>d\<in>set more. valid_name d) \<and> valid_name f \<and>
          lookup (Dir es) (more @ [f]) = Inr (File t)"
proof (induction ds0 es rule: subdir_files.induct)
  case (1 ds0)
  then show ?case by simp
next
  case (2 ds0 name u es)
  from "2.prems" have "(ds, f, t) \<in> set (subdir_files ds0 es)" "wf_entries es" by auto
  with "2.IH" obtain more where m: "ds = ds0 @ more" "more \<noteq> []" "\<forall>d\<in>set more. valid_name d" "valid_name f"
      "lookup (Dir es) (more @ [f]) = Inr (File t)"
    by blast
  then obtain c cs where c: "more = c # cs" by (cases more) auto
  with m have "valid_name c" by simp
  with m c have "c \<in> fst ` set es"
    by (intro lookup_in_dir [of es c "cs @ [f]"]) (auto simp: valid_name_def)
  with "2.prems" have "c \<noteq> name" by auto
  with m c \<open>valid_name c\<close> have "lookup (Dir ((name, File u) # es)) (more @ [f]) = Inr (File t)"
    by (simp add: valid_name_def)
  with m show ?case by blast
next
  case (3 ds0 name sub es)
  from "3.prems" have wf: "valid_name name" "name \<notin> fst ` set es" "wf_entries sub" "wf_entries es"
    by simp_all
  from wf(1) have nm: "name \<noteq> []" "name \<noteq> ''.''" by (auto simp: valid_name_def)
  from "3.prems"(2) consider
      (here) "(ds, f, t) \<in> set (files_in (ds0 @ [name]) sub)"
    | (below) "(ds, f, t) \<in> set (subdir_files (ds0 @ [name]) sub)"
    | (later) "(ds, f, t) \<in> set (subdir_files ds0 es)"
    by auto
  then show ?case
  proof cases
    case here
    with wf(3) have "ds = ds0 @ [name]" "valid_name f" "lookup (Dir sub) [f] = Inr (File t)"
      using files_in_lookup [of sub ds f t "ds0 @ [name]"] by auto
    with wf(1) nm show ?thesis
      by (intro exI [of _ "[name]"]) simp
  next
    case below
    with "3.IH"(1) wf(3) obtain more where m: "ds = (ds0 @ [name]) @ more" "more \<noteq> []"
        "\<forall>d\<in>set more. valid_name d" "valid_name f" "lookup (Dir sub) (more @ [f]) = Inr (File t)"
      by blast
    with wf(1) nm show ?thesis
      by (intro exI [of _ "name # more"]) simp
  next
    case later
    with "3.IH"(2) wf(4) obtain more where m: "ds = ds0 @ more" "more \<noteq> []"
        "\<forall>d\<in>set more. valid_name d" "valid_name f" "lookup (Dir es) (more @ [f]) = Inr (File t)"
      by blast
    then obtain c cs where c: "more = c # cs" by (cases more) auto
    with m have vc: "valid_name c" by simp
    with m c have "c \<in> fst ` set es"
      by (intro lookup_in_dir [of es c "cs @ [f]"]) (auto simp: valid_name_def)
    with wf(2) have "c \<noteq> name" by auto
    with m c vc have "lookup (Dir ((name, Dir sub) # es)) (more @ [f]) = Inr (File t)"
      by (simp add: valid_name_def)
    with m show ?thesis by blast
  qed
qed

lemma files_under_lookup:
  assumes "wf_entries es" "(ds, f, t) \<in> set (files_under es)"
  shows "(\<forall>d\<in>set ds. valid_name d) \<and> valid_name f \<and> lookup (Dir es) (ds @ [f]) = Inr (File t)"
  using assms files_in_lookup [of es ds f t "[]"] subdir_files_lookup [of es ds f t "[]"]
  by (auto simp: files_under_def)

lemma open_read_listed:
  assumes src: "resolve root (source_path name) = Inr (Dir es)"
    and wf: "wf_entries es" and e: "e \<in> set (files_under es)"
  shows "open_read root (source_path name @ rel_path e) = Inr (snd (snd e))"
proof -
  obtain ds f t where [simp]: "e = (ds, f, t)" by (cases e)
  from wf e have v: "\<forall>d\<in>set ds. valid_name d" "valid_name f"
    and l: "lookup (Dir es) (ds @ [f]) = Inr (File t)"
    using files_under_lookup [of es ds f t] by auto
  define X where "X = PACKAGES_ROOT_SRC_DIR @ ''/'' @ name @ ''/'' @ PACKAGES_SRC_DIR"
  define sx where "sx = split_path X"
  have sp: "source_path name = X @ CHR ''/'' # []" by (simp add: source_path_def X_def)
  from src have "lookup root (sx @ [[]]) = Inr (Dir es)"
    unfolding resolve_def sp split_path_slash sx_def by simp
  then obtain m where m: "lookup root sx = Inr m" "lookup m [[]] = Inr (Dir es)"
    unfolding lookup_append by (cases "lookup root sx") auto
  then have X: "lookup root sx = Inr (Dir es)" by (cases m) auto
  have "split_path (source_path name @ rel_path e) = sx @ split_path (rel_path e)"
    unfolding sp sx_def using split_path_slash [of X "rel_path e"] by simp
  also have "split_path (rel_path e) = (if ds = [] then [[], f] else ds @ [f])"
    using v by (simp add: split_path_rel_path)
  finally have eq: "split_path (source_path name @ rel_path e) = sx @ (if ds = [] then [[], f] else ds @ [f])" .
  from v(2) have f: "f \<noteq> []" "f \<noteq> ''.''" by (auto simp: valid_name_def)
  have "lookup (Dir es) (if ds = [] then [[], f] else ds @ [f]) = Inr (File t)"
    using l f by auto
  with X have "lookup root (split_path (source_path name @ rel_path e)) = Inr (File t)"
    unfolding eq lookup_append by simp
  then show ?thesis by (simp add: open_read_def resolve_def)
qed

subsection \<open>No two listed files share a path\<close>

lemma files_in_name: "e \<in> set (files_in ds0 es) \<Longrightarrow> fst e = ds0 \<and> fst (snd e) \<in> fst ` set es"
  by (induction ds0 es rule: files_in.induct) auto

lemma distinct_files_in: "wf_entries es \<Longrightarrow> distinct (map components (files_in ds0 es))"
proof (induction ds0 es rule: files_in.induct)
  case (2 ds0 name u es)
  have "components (ds0, name, u) \<notin> components ` set (files_in ds0 es)"
  proof
    assume "components (ds0, name, u) \<in> components ` set (files_in ds0 es)"
    then obtain e where "e \<in> set (files_in ds0 es)" "components e = ds0 @ [name]"
      by (auto simp: components_def)
    then have "name \<in> fst ` set es"
      using files_in_name [of e ds0 es] by (auto simp: components_def)
    with "2.prems" show False by simp
  qed
  with 2 show ?case by simp
qed simp_all

lemma subdir_files_components:
  assumes "wf_entries es" "e \<in> set (subdir_files ds0 es)"
  shows "\<exists>n more. components e = ds0 @ n # more \<and> n \<in> fst ` set es \<and> more \<noteq> []"
proof -
  obtain ds f t where e: "e = (ds, f, t)" by (cases e)
  with assms obtain more where m: "ds = ds0 @ more" "more \<noteq> []" "\<forall>d\<in>set more. valid_name d"
      "lookup (Dir es) (more @ [f]) = Inr (File t)"
    using subdir_files_lookup [of es ds f t ds0] by blast
  then obtain c cs where c: "more = c # cs" by (cases more) auto
  with m have "c \<in> fst ` set es"
    by (intro lookup_in_dir [of es c "cs @ [f]"]) (auto simp: valid_name_def)
  with e m c show ?thesis
    by (intro exI [of _ c] exI [of _ "cs @ [f]"]) (simp add: components_def)
qed

lemma distinct_subdir_files: "wf_entries es \<Longrightarrow> distinct (map components (subdir_files ds0 es))"
proof (induction ds0 es rule: subdir_files.induct)
  case (1 ds0)
  show ?case by simp
next
  case (2 ds0 name u es)
  then show ?case by simp
next
  case (3 ds0 name sub es)
  from "3.prems" have wf: "name \<notin> fst ` set es" "wf_entries sub" "wf_entries es" by simp_all
  let ?A = "files_in (ds0 @ [name]) sub"
  let ?B = "subdir_files (ds0 @ [name]) sub"
  let ?C = "subdir_files ds0 es"
  have dA: "distinct (map components ?A)" using wf(2) by (rule distinct_files_in)
  have dB: "distinct (map components ?B)" using "3.IH"(1) wf(2) by simp
  have dC: "distinct (map components ?C)" using "3.IH"(2) wf(3) by simp
  have cA: "length (components e) = length ds0 + 2 \<and> take (Suc (length ds0)) (components e) = ds0 @ [name]"
    if "e \<in> set ?A" for e
    using files_in_name [OF that] by (simp add: components_def)
  have cB: "length (components e) > length ds0 + 2 \<and> take (Suc (length ds0)) (components e) = ds0 @ [name]"
    if "e \<in> set ?B" for e
  proof -
    from subdir_files_components [OF wf(2) that]
    obtain n more where "components e = (ds0 @ [name]) @ n # more" "more \<noteq> []" by blast
    then show ?thesis by (cases more) auto
  qed
  have cC: "take (Suc (length ds0)) (components e) \<noteq> ds0 @ [name]" if "e \<in> set ?C" for e
  proof -
    from subdir_files_components [OF wf(3) that]
    obtain n more where "components e = ds0 @ n # more" "n \<in> fst ` set es" by blast
    with wf(1) show ?thesis by auto
  qed
  have AB: "components ` set ?A \<inter> components ` set ?B = {}"
    using cA cB by fastforce
  have AC: "components ` set ?A \<inter> components ` set ?C = {}"
    using cA cC by fastforce
  have BC: "components ` set ?B \<inter> components ` set ?C = {}"
    using cB cC by fastforce
  from dA dB dC AB AC BC show ?case by auto
qed

lemma distinct_files_under: "wf_entries es \<Longrightarrow> distinct (map components (files_under es))"
proof -
  assume wf: "wf_entries es"
  have "length (components e) = 1" if "e \<in> set (files_in [] es)" for e
    using files_in_name [OF that] by (simp add: components_def)
  moreover have "length (components e) > 1" if "e \<in> set (subdir_files [] es)" for e
    using subdir_files_components [OF wf that] by auto
  ultimately have "components ` set (files_in [] es) \<inter> components ` set (subdir_files [] es) = {}"
    by fastforce
  with wf show ?thesis
    by (simp add: files_under_def distinct_files_in distinct_subdir_files)
qed

lemma rel_path_components:
  assumes "wf_entries es" "e \<in> set (files_under es)" "e' \<in> set (files_under es)"
    and "rel_path e = rel_path e'"
  shows "components e = components e'"
proof -
  obtain ds f t ds' f' t' where e: "e = (ds, f, t)" "e' = (ds', f', t')" by (cases e; cases e')
  from assms e have v: "\<forall>d\<in>set ds. valid_name d" "valid_name f" "\<forall>d\<in>set ds'. valid_name d" "valid_name f'"
    using files_under_lookup [of es ds f t] files_under_lookup [of es ds' f' t'] by auto
  from assms(4) e
  have "(if ds = [] then [[], f] else ds @ [f]) = (if ds' = [] then [[], f'] else ds' @ [f'])"
    using split_path_rel_path [OF v(1,2), of t] split_path_rel_path [OF v(3,4), of t'] by simp
  with v show ?thesis
    unfolding e components_def
    by (cases ds; cases ds'; cases "tl ds"; cases "tl ds'") (auto simp: valid_name_def)
qed

lemma distinct_rel_paths: "wf_entries es \<Longrightarrow> distinct (map rel_path (files_under es))"
proof -
  assume wf: "wf_entries es"
  from distinct_files_under [OF wf]
  have d: "distinct (files_under es)" and inj: "inj_on components (set (files_under es))"
    by (auto simp: distinct_map)
  have "inj_on rel_path (set (files_under es))"
  proof (rule inj_onI)
    fix e e' assume "e \<in> set (files_under es)" "e' \<in> set (files_under es)" "rel_path e = rel_path e'"
    then have "components e = components e'" using rel_path_components [OF wf] by blast
    with inj \<open>e \<in> _\<close> \<open>e' \<in> _\<close> show "e = e'" by (auto dest: inj_onD)
  qed
  with d show ?thesis by (simp add: distinct_map)
qed

subsection \<open>The package assembler\<close>

lemma assoc_set_twice: "assoc_set (assoc_set kvs k v) k v' = assoc_set kvs k v'"
  by (induction kvs k v rule: assoc_set.induct) auto

lemma assoc_set_new: "k \<notin> fst ` set kvs \<Longrightarrow> assoc_set kvs k v = kvs @ [(k, v)]"
  by (induction kvs k v rule: assoc_set.induct) auto

lemma foldl_assoc_set_new:
  "distinct (map fst ps) \<Longrightarrow> fst ` set ps \<inter> fst ` set kvs = {} \<Longrightarrow>
   foldl (\<lambda>d p. assoc_set d (fst p) (snd p)) kvs ps = kvs @ ps"
proof (induction ps arbitrary: kvs)
  case Nil
  show ?case by simp
next
  case (Cons p ps)
  from Cons.prems have "fst p \<notin> fst ` set kvs" by auto
  then have "assoc_set kvs (fst p) (snd p) = kvs @ [p]" by (simp add: assoc_set_new)
  moreover from Cons.prems have "fst ` set ps \<inter> fst ` set (kvs @ [p]) = {}" by auto
  ultimately show ?case using Cons.IH [of "kvs @ [p]"] Cons.prems by simp
qed

lemma get_package_files_source:
  assumes "wf_entries (source_entries root name)"
  shows "get_package_files root name = map rel_path (files_under (source_entries root name))"
proof (cases "resolve root (source_path name)")
  case (Inl e)
  then show ?thesis
    by (simp add: get_package_files_def os_walk_def source_entries_def source_path_def files_under_def)
next
  case (Inr n)
  show ?thesis
  proof (cases n)
    case (File t)
    with Inr show ?thesis
      by (simp add: get_package_files_def os_walk_def source_entries_def source_path_def files_under_def)
  next
    case (Dir es)
    with Inr assms have "wf_entries es" by (simp add: source_entries_def)
    with Inr Dir show ?thesis
      using get_package_files_eq [of root name es] by (simp add: source_entries_def source_path_def)
  qed
qed

lemma open_read_source:
  assumes "wf_entries (source_entries root name)" "e \<in> set (files_under (source_entries root name))"
  shows "open_read root (source_path name @ rel_path e) = Inr (snd (snd e))"
proof (cases "resolve root (source_path name)")
  case (Inl x)
  with assms(2) show ?thesis by (simp add: source_entries_def files_under_def)
next
  case (Inr n)
  show ?thesis
  proof (cases n)
    case (File t)
    with Inr assms(2) show ?thesis by (simp add: source_entries_def files_under_def)
  next
    case (Dir es)
    with Inr assms show ?thesis
      using open_read_listed [of root name es e] by (simp add: source_entries_def)
  qed
qed

lemma build_files_ok:
  assumes "\<forall>e\<in>set ents. open_read (cwd w) (source_path name @ rel_path e) = Inr (snd (snd e))"
    and "map_of kvs ''files'' = Some (JObject fs)"
  shows "fst (build_files name (map rel_path ents) (JObject kvs) w) =
           Inr (JObject (assoc_set kvs ''files''
                  (JObject (foldl (\<lambda>d p. assoc_set d (fst p) (snd p)) fs
                                  (map (\<lambda>e. (rel_path e, file_entry (snd (snd e)))) ents))))) \<and>
         cwd (snd (build_files name (map rel_path ents) (JObject kvs) w)) = cwd w"
  using assms
proof (induction ents arbitrary: kvs fs w)
  case Nil
  have "assoc_set kvs ''files'' (JObject fs) = kvs"
    using Nil(2) by (induction kvs) (auto split: if_splits)
  then show ?case by simp
next
  case (Cons e ents)
  let ?w = "print (''[+] '' @ rel_path e) w"
  let ?fs = "assoc_set fs (rel_path e) (file_entry (snd (snd e)))"
  let ?kvs = "assoc_set kvs ''files'' (JObject ?fs)"
  have read: "open_read (cwd ?w)
      (PACKAGES_ROOT_SRC_DIR @ ''/'' @ name @ ''/'' @ PACKAGES_SRC_DIR @ ''/'' @ rel_path e) = Inr (snd (snd e))"
    using Cons.prems(1) by (simp add: source_path_def)
  have step: "build_files name (map rel_path (e # ents)) (JObject kvs) w =
              build_files name (map rel_path ents) (JObject ?kvs) ?w"
    using read Cons.prems(2)
    by (simp add: getitem_def setitem_def file_entry_def Let_def del: append.simps)
  have "\<forall>e\<in>set ents. open_read (cwd ?w) (source_path name @ rel_path e) = Inr (snd (snd e))"
    using Cons.prems(1) by simp
  moreover have "map_of ?kvs ''files'' = Some (JObject ?fs)"
    by (simp add: map_of_assoc_set)
  ultimately show ?case
    unfolding step using Cons.IH [of ?w ?kvs ?fs] by (simp add: assoc_set_twice)
qed

lemma build_package_ok:
  assumes m: "open_read (cwd w) (manifest_path name) = Inr t" "json_loads t = Inr (JObject kvs)"
    and wf: "wf_entries (source_entries (cwd w) name)"
  shows "fst (build_package name w) = Inr (package_document kvs (source_entries (cwd w) name)) \<and>
         cwd (snd (build_package name w)) = cwd w"
proof -
  let ?w = "print ''[i] Reading manifest'' w"
  let ?es = "source_entries (cwd w) name"
  let ?ps = "map (\<lambda>e. (rel_path e, file_entry (snd (snd e)))) (files_under ?es)"
  have gm: "get_manifest name w = (Inr (JObject kvs), ?w)"
    using m by (rule get_manifest_ok)
  have files: "get_package_files (cwd ?w) name = map rel_path (files_under ?es)"
    using wf by (simp add: get_package_files_source)
  have bp: "build_package name w =
        build_files name (map rel_path (files_under ?es)) (JObject (assoc_set kvs ''files'' (JObject []))) ?w"
    using gm files by (simp add: build_package_def setitem_def)
  have reads: "\<forall>e\<in>set (files_under ?es). open_read (cwd ?w) (source_path name @ rel_path e) = Inr (snd (snd e))"
    using wf by (simp add: open_read_source)
  have "distinct (map rel_path (files_under ?es))" using wf by (rule distinct_rel_paths)
  then have "distinct (map fst ?ps)" by (simp add: comp_def)
  then have "foldl (\<lambda>d p. assoc_set d (fst p) (snd p)) [] ?ps = [] @ ?ps"
    by (intro foldl_assoc_set_new) simp_all
  with build_files_ok [OF reads, of "assoc_set kvs ''files'' (JObject [])" "[]"]
  show ?thesis
    unfolding bp by (simp add: map_of_assoc_set assoc_set_twice package_document_def files_mapping_def)
qed

lemma getitem_assoc_set_other:
  "k \<noteq> k' \<Longrightarrow> getitem (JObject (assoc_set kvs k' v)) k = getitem (JObject kvs) k"
  by (simp add: getitem_def map_of_assoc_set)

lemma getitem_assoc_set_same: "getitem (JObject (assoc_set kvs k v)) k = Inr v"
  by (simp add: getitem_def map_of_assoc_set)

text \<open>
  Claim C10. The document that \<open>build_package\<close> returns for a loaded manifest has, under
  every key other than \<open>files\<close>, what the manifest has there (a value, or no such key), and
  under \<open>files\<close> the freshly computed file mapping, whatever the manifest held there.
\<close>

theorem C10_manifest_keys_preserved:
  assumes "open_read (cwd w) (manifest_path name) = Inr t"
    and "json_loads t = Inr (JObject manifest)"
    and "wf_entries (source_entries (cwd w) name)"
  shows "\<exists>document. fst (build_package name w) = Inr document \<and>
           (\<forall>k. k \<noteq> ''files'' \<longrightarrow> getitem document k = getitem (JObject manifest) k) \<and>
           getitem document ''files'' = Inr (JObject (files_mapping (source_entries (cwd w) name)))"
  using build_package_ok [OF assms]
  by (simp add: package_document_def getitem_assoc_set_other getitem_assoc_set_same)

lemma world_files_manifest:
  \<open>open_read (cwd world_files) (manifest_path ''p'') = Inr ''{"files": 5, "version": "1.0.0"}''\<close>
  by (simp add: world_files_def open_read_def resolve_def manifest_path_def
      PACKAGES_ROOT_SRC_DIR_def MANIFEST_FILE_def)

lemma world_files_loads:
  \<open>json_loads ''{"files": 5, "version": "1.0.0"}'' =
     Inr (JObject [(''files'', JInt 5), (''version'', JString ''1.0.0'')])\<close>
  by code_simp

lemma world_files_source:
  "source_entries (cwd world_files) ''p'' = [(''a.txt'', File ''hello'')]"
  by (simp add: world_files_def source_entries_def resolve_def source_path_def
      PACKAGES_ROOT_SRC_DIR_def PACKAGES_SRC_DIR_def)

lemma world_files_wf: "wf_entries (source_entries (cwd world_files) ''p'')"
  by (simp add: world_files_source valid_name_def)

theorem C10_manifest_keys_preserved_witness:
  "\<exists>document. fst (build_package ''p'' world_files) = Inr document \<and>
     getitem document ''version'' = Inr (JString ''1.0.0'') \<and>
     getitem document ''files'' = Inr (JObject [(''/a.txt'', file_entry ''hello'')])"
  using C10_manifest_keys_preserved [OF world_files_manifest world_files_loads world_files_wf]
  by (auto simp: world_files_source files_mapping_def files_under_def rel_path_def getitem_def)

subsection \<open>Base64\<close>

lemma unat_of_nat_byte: "n < 256 \<Longrightarrow> unat (of_nat n :: byte) = n"
  by (simp add: unat_of_nat)

lemma b64_code_less: "b64_code i < 128"
  unfolding b64_code_def by auto

lemma unat_b64_char: "unat (b64_char i) = b64_code i"
  unfolding b64_char_def using b64_code_less [of i] by (intro unat_of_nat_byte) simp

lemma b64_index_char: "i < 64 \<Longrightarrow> b64_index (b64_char i) = Some i"
  unfolding b64_index_def Let_def unat_b64_char b64_code_def
  by auto

lemma b64_char_not_pad: "i < 64 \<Longrightarrow> b64_char i \<noteq> 61"
proof
  assume "i < 64" "b64_char i = 61"
  then have "unat (b64_char i) = 61" by simp
  with \<open>i < 64\<close> show False
    unfolding unat_b64_char b64_code_def by (auto split: if_splits)
qed

lemma b64_char_ascii: "unat (b64_char i) < 128"
  unfolding unat_b64_char by (rule b64_code_less)

lemma unat_byte_less: "unat (a :: byte) < 256"
  using unsigned_less [of a, where 'a = nat] by simp

lemma sextet_parts:
  fixes x :: nat
  assumes "x < 256"
  shows "x div 4 < 64" "x div 16 < 16" "x div 64 < 4" "x mod 4 < 4" "x mod 16 < 16" "x mod 64 < 64"
  using assms by (simp_all add: less_mult_imp_div_less)

lemma sextet_bounds:
  "unat (a :: byte) div 4 < 64"
  "unat (a :: byte) mod 4 * 16 + unat (b :: byte) div 16 < 64"
  "unat (a :: byte) mod 4 * 16 < 64"
  "unat (b :: byte) mod 16 * 4 + unat (c :: byte) div 64 < 64"
  "unat (b :: byte) mod 16 * 4 < 64"
  "unat (c :: byte) mod 64 < 64"
  using sextet_parts [OF unat_byte_less [of a]] sextet_parts [OF unat_byte_less [of b]]
    sextet_parts [OF unat_byte_less [of c]]
  by linarith+

lemma group_first_nat:
  fixes x y :: nat
  assumes "y < 256"
  shows "x div 4 * 4 + (x mod 4 * 16 + y div 16) div 16 = x"
proof -
  have "y div 16 < 16" using assms by (simp add: less_mult_imp_div_less)
  then have "(x mod 4 * 16 + y div 16) div 16 = x mod 4" by simp
  then show ?thesis by simp
qed

lemma group_second_nat:
  fixes x y z :: nat
  assumes "y < 256" "z < 256"
  shows "(x mod 4 * 16 + y div 16) mod 16 * 16 + (y mod 16 * 4 + z div 64) div 4 = y"
proof -
  have "y div 16 < 16" "z div 64 < 4"
    using assms by (simp_all add: less_mult_imp_div_less)
  then have "(x mod 4 * 16 + y div 16) mod 16 = y div 16" "(y mod 16 * 4 + z div 64) div 4 = y mod 16"
    by simp_all
  then show ?thesis by simp
qed

lemma group_third_nat:
  fixes y z :: nat
  assumes "z < 256"
  shows "(y mod 16 * 4 + z div 64) mod 4 * 64 + z mod 64 = z"
proof -
  have "z div 64 < 4" using assms by (simp add: less_mult_imp_div_less)
  then have "(y mod 16 * 4 + z div 64) mod 4 = z div 64" by simp
  then show ?thesis by simp
qed

lemma group_first: "y < 256 \<Longrightarrow> (of_nat (unat a div 4 * 4 + (unat a mod 4 * 16 + y div 16) div 16) :: byte) = a"
  by (simp only: group_first_nat of_nat_unat) simp

lemma group_second:
  "z < 256 \<Longrightarrow>
   (of_nat ((x mod 4 * 16 + unat b div 16) mod 16 * 16 + (unat b mod 16 * 4 + z div 64) div 4) :: byte) = b"
  using group_second_nat [OF unat_byte_less [of b], of z x] by simp

lemma group_third:
  "(of_nat ((y mod 16 * 4 + unat c div 64) mod 4 * 64 + unat c mod 64) :: byte) = c"
  using group_third_nat [OF unat_byte_less [of c], of y] by simp

lemma b64decode_b64encode: "b64decode (b64encode bs) = Some bs"
proof (induction bs rule: b64encode.induct)
  case 1
  show ?case by simp
next
  case (2 a)
  show ?case
    using group_first [of 0 a]
    by (simp add: b64_index_char sextet_bounds)
next
  case (3 a b)
  show ?case
    using group_first [of "unat b" a] group_second [of 0 "unat a" b]
    by (simp add: b64_index_char b64_char_not_pad sextet_bounds unat_byte_less)
next
  case (4 a b c bs)
  then show ?case
    using group_first [of "unat b" a] group_second [of "unat c" "unat a" b] group_third [of "unat b" c]
    by (simp add: b64_index_char b64_char_not_pad sextet_bounds unat_byte_less)
qed

lemma b64encode_ascii: "b \<in> set (b64encode bs) \<Longrightarrow> unat b < 128"
  by (induction bs rule: b64encode.induct)
     (auto simp: b64_char_ascii)

subsection \<open>Text of an archive\<close>

lemma bytes_decode_ascii:
  "\<forall>b\<in>set bs. unat b < 128 \<Longrightarrow> bytes_decode bs = Inr (ascii_text bs)"
  by (induction bs) (simp_all add: ascii_text_def)



lemma compress_ascii: "\<forall>b\<in>set (compress zc document). unat b < 128"
  by (auto simp: compress_def dest: b64encode_ascii)

lemma bytes_decode_compress: "bytes_decode (compress zc document) = Inr (ascii_text (compress zc document))"
  by (rule bytes_decode_ascii) (rule compress_ascii)


subsection \<open>Writing twice\<close>

lemma write_at_again:
  "write_at n cs t = Inr n' \<Longrightarrow> write_at n' cs t' = write_at n cs t'"
proof (induction n cs t arbitrary: n' rule: write_at.induct)
  case (4 es c cs t)
  show ?case
  proof (cases "c = [] \<or> c = ''.''")
    case True
    with 4 show ?thesis
      using write_at_Dir [of es cs t n'] by auto
  next
    case False
    show ?thesis
    proof (cases "map_of es c")
      case None
      with False "4.prems" show ?thesis
        by (auto simp: map_of_assoc_set assoc_set_twice split: if_splits)
    next
      case (Some m)
      with False "4.prems" obtain m' where m': "write_at m cs t = Inr m'" "n' = Dir (assoc_set es c m')"
        by (auto split: sum.splits)
      with "4.IH"(2) [OF False Some] have "write_at m' cs t' = write_at m cs t'" by simp
      with False Some m' show ?thesis
        by (simp add: map_of_assoc_set assoc_set_twice split: sum.splits)
    qed
  qed
qed auto

lemma write_at_any_text:
  "write_at n cs t = Inr n' \<Longrightarrow> \<exists>n''. write_at n cs t' = Inr n''"
proof (induction n cs t arbitrary: n' rule: write_at.induct)
  case (4 es c cs t)
  then show ?case
    by (cases "c = [] \<or> c = ''.''"; cases "map_of es c")
       (fastforce split: if_splits sum.splits)+
qed auto

lemma open_write_again:
  "open_write root path t = Inr opened \<Longrightarrow> open_write opened path t' = open_write root path t'"
  by (simp add: open_write_def write_at_again)

lemma can_write_text:
  "can_write root path \<Longrightarrow> \<exists>written. open_write root path t = Inr written"
  unfolding can_write_def open_write_def
  using write_at_any_text [of root "split_path path" "[]" _ t]
  by (auto split: sum.splits)

subsection \<open>The pool writer\<close>

lemma write_package_ok:
  assumes b: "fst (build_package name (print (''Packaging '' @ name) w)) = Inr (JObject d)"
      "cwd (snd (build_package name (print (''Packaging '' @ name) w))) = cwd w"
    and v: "map_of d ''version'' = Some version"
    and wr: "open_write (cwd w) (archive_path name version) (ascii_text (compress zc (JObject d))) = Inr written"
  shows "fst (write_package zc name w) = Inr (index_entry zc version (JObject d)) \<and>
         cwd (snd (write_package zc name w)) = written"
proof -
  obtain w1 where bp: "build_package name (print (''Packaging '' @ name) w) = (Inr (JObject d), w1)"
      and w1: "cwd w1 = cwd w"
    using b by (cases "build_package name (print (''Packaging '' @ name) w)") auto
  from wr obtain opened where op: "open_write (cwd w) (archive_path name version) [] = Inr opened"
    unfolding open_write_def using write_at_any_text by blast
  then have again: "open_write opened (archive_path name version) (ascii_text (compress zc (JObject d))) = Inr written"
    using wr by (simp add: open_write_again)
  show ?thesis
    using bp w1 v op again
    by (simp add: write_package_def getitem_def Let_def bytes_decode_compress index_entry_def
        archive_path_def)
qed

subsection \<open>The digest of the index\<close>











subsection \<open>A manifest without a version\<close>

lemma getitem_package_document:
  "k \<noteq> ''files'' \<Longrightarrow> getitem (package_document manifest es) k = getitem (JObject manifest) k"
  by (simp add: package_document_def getitem_assoc_set_other)

text \<open>
  Claim C9. For a package whose manifest is a JSON object without a \<open>version\<close> key, the
  package is assembled and not skipped; \<open>package['version']\<close> in \<open>write_package\<close> raises
  \<open>KeyError\<close> with the file system as it was, so no archive is written; nothing catches the
  error, and the run ends with it at that package before the index is written.
\<close>

theorem C9_missing_version:
  assumes "open_read (cwd w) (manifest_path name) = Inr t"
    and "json_loads t = Inr (JObject manifest)"
    and "''version'' \<notin> fst ` set manifest"
    and "wf_entries (source_entries (cwd w) name)"
  shows "fst (build_package name (print (''Packaging '' @ name) w)) =
           Inr (package_document manifest (source_entries (cwd w) name)) \<and>
         fst (write_package zc name w) = Inl KeyError \<and>
         cwd (snd (write_package zc name w)) = cwd w \<and>
         (\<forall>w0 before rest pk.
            get_all_packages (cwd w0) = Inr (before @ name # rest) \<and>
            main_loop zc before (JObject []) w0 = (Inr pk, w) \<longrightarrow>
            fst (main zc w0) = Inl KeyError \<and> cwd (snd (main zc w0)) = cwd w)"
proof -
  let ?w = "print (''Packaging '' @ name) w"
  let ?doc = "package_document manifest (source_entries (cwd w) name)"
  from build_package_ok [of ?w name t manifest] assms
  have fst_bp: "fst (build_package name ?w) = Inr ?doc" and cwd_bp: "cwd (snd (build_package name ?w)) = cwd w"
    by simp_all
  then obtain w1 where bp: "build_package name ?w = (Inr ?doc, w1)" and w1: "cwd w1 = cwd w"
    by (cases "build_package name ?w") auto
  have "getitem ?doc ''version'' = Inl KeyError"
    using assms(3) by (simp add: getitem_package_document getitem_absent)
  with bp have wp: "write_package zc name w = (Inl KeyError, w1)"
    by (simp add: write_package_def package_document_def Let_def)
  have abort: "fst (main zc w0) = Inl KeyError \<and> cwd (snd (main zc w0)) = cwd w"
    if run: "get_all_packages (cwd w0) = Inr (before @ name # rest) \<and>
             main_loop zc before (JObject []) w0 = (Inr pk, w)" for w0 before rest pk
  proof -
    from wp have "main_loop zc (name # rest) pk w = (Inl KeyError, w1)" by simp
    with run have "main zc w0 = (Inl KeyError, w1)"
      by (simp add: main_def main_loop_append del: main_loop.simps)
    with w1 show ?thesis by simp
  qed
  from wp w1 have "fst (write_package zc name w) = Inl KeyError" "cwd (snd (write_package zc name w)) = cwd w"
    by simp_all
  with fst_bp abort show ?thesis by blast
qed

lemma world_noversion_manifest:
  \<open>open_read (cwd world_noversion) (manifest_path ''p'') = Inr ''{"name": "p"}''\<close>
  by (simp add: world_noversion_def open_read_def resolve_def manifest_path_def
      PACKAGES_ROOT_SRC_DIR_def MANIFEST_FILE_def)

lemma world_noversion_loads:
  \<open>json_loads ''{"name": "p"}'' = Inr (JObject [(''name'', JString ''p'')])\<close>
  by code_simp

lemma world_noversion_source:
  "source_entries (cwd world_noversion) ''p'' = [(''a.txt'', File ''hello'')]"
  by (simp add: world_noversion_def source_entries_def resolve_def source_path_def
      PACKAGES_ROOT_SRC_DIR_def PACKAGES_SRC_DIR_def)

lemma world_noversion_listing: "get_all_packages (cwd world_noversion) = Inr ([] @ ''p'' # [])"
  by (simp add: world_noversion_def get_all_packages_def os_scandir_def resolve_def
      PACKAGES_ROOT_SRC_DIR_def)

theorem C9_missing_version_witness:
  "fst (write_package id ''p'' world_noversion) = Inl KeyError \<and>
   fst (main id world_noversion) = Inl KeyError \<and>
   cwd (snd (main id world_noversion)) = cwd world_noversion"
proof -
  have wf: "wf_entries (source_entries (cwd world_noversion) ''p'')"
    by (simp add: world_noversion_source valid_name_def)
  have nov: "''version'' \<notin> fst ` set [(''name'', JString ''p'')]" by simp
  from C9_missing_version [OF world_noversion_manifest world_noversion_loads nov wf, of id]
  have "fst (write_package id ''p'' world_noversion) = Inl KeyError"
    and "\<forall>w0 before rest pk.
            get_all_packages (cwd w0) = Inr (before @ ''p'' # rest) \<and>
            main_loop id before (JObject []) w0 = (Inr pk, world_noversion) \<longrightarrow>
            fst (main id w0) = Inl KeyError \<and> cwd (snd (main id w0)) = cwd world_noversion"
    by blast+
  then show ?thesis
    using world_noversion_listing
    by (elim allE [of _ world_noversion] allE [of _ "[]"] allE [of _ "JObject []"]) simp
qed

subsection \<open>A package without source files\<close>

lemma main_loop_getitem:
  "main_loop zc rest (JObject packages) w = (Inr final, w') \<Longrightarrow> name \<notin> set rest \<Longrightarrow>
   getitem final name = getitem (JObject packages) name"
proof (induction rest arbitrary: packages w)
  case Nil
  then show ?case by auto
next
  case (Cons p rest)
  obtain r w1 where wp: "write_package zc p w = (r, w1)" by (cases "write_package zc p w")
  with Cons.prems obtain index where r: "r = Inr index" by (cases r) auto
  show ?case
  proof (cases "index = JNull")
    case True
    with Cons.prems wp r have "main_loop zc rest (JObject packages) w1 = (Inr final, w')" by simp
    with Cons.IH Cons.prems(2) show ?thesis by simp
  next
    case False
    with Cons.prems wp r
    have "main_loop zc rest (JObject (assoc_set packages p index)) w1 = (Inr final, w')"
      by (simp add: setitem_def)
    with Cons.IH Cons.prems(2)
    have "getitem final name = getitem (JObject (assoc_set packages p index)) name" by simp
    also have "\<dots> = getitem (JObject packages) name"
      using Cons.prems(2) by (simp add: getitem_assoc_set_other)
    finally show ?thesis .
  qed
qed

text \<open>
  Claim C8. For a package with a manifest that has a version, and whose source directory
  is absent or empty, the collector yields no path and the document's \<open>files\<close> is the empty
  mapping; where the archive file can be written in the pool, the package is written
  there and its entry is in the index the driver ends with.
\<close>

theorem C8_no_source_files:
  assumes "open_read (cwd w) (manifest_path name) = Inr t"
    and "json_loads t = Inr (JObject manifest)"
    and "map_of manifest ''version'' = Some version"
    and "resolve (cwd w) (source_path name) = Inl FileNotFoundError \<or>
         resolve (cwd w) (source_path name) = Inr (Dir [])"
    and "can_write (cwd w) (archive_path name version)"
  shows "get_package_files (cwd w) name = [] \<and>
         fst (build_package name w) = Inr (JObject (assoc_set manifest ''files'' (JObject []))) \<and>
         (\<exists>index w'.
            write_package zc name w = (Inr index, w') \<and>
            index = index_entry zc version (JObject (assoc_set manifest ''files'' (JObject []))) \<and>
            open_read (cwd w') (archive_path name version) =
              Inr (ascii_text (compress zc (JObject (assoc_set manifest ''files'' (JObject []))))) \<and>
            (\<forall>rest packages final w''.
               name \<notin> set rest \<and>
               main_loop zc (name # rest) (JObject packages) w = (Inr final, w'') \<longrightarrow>
               getitem final name = Inr index))"
proof -
  let ?doc = "JObject (assoc_set manifest ''files'' (JObject []))"
  let ?w = "print (''Packaging '' @ name) w"
  from assms(4) have src: "source_entries (cwd w) name = []"
    by (auto simp: source_entries_def)
  then have wf: "wf_entries (source_entries (cwd w) name)" by simp
  have files: "get_package_files (cwd w) name = []"
    using get_package_files_source [OF wf] src by (simp add: files_under_def)
  have doc: "package_document manifest (source_entries (cwd w) name) = ?doc"
    using src by (simp add: package_document_def files_mapping_def files_under_def)
  have bp: "fst (build_package name w) = Inr ?doc"
    using build_package_ok [OF assms(1,2) wf] doc by simp
  have bp': "fst (build_package name ?w) = Inr ?doc" "cwd (snd (build_package name ?w)) = cwd w"
    using build_package_ok [of ?w name t manifest] assms(1,2) wf doc by simp_all
  have v: "map_of (assoc_set manifest ''files'' (JObject [])) ''version'' = Some version"
    using assms(3) by (simp add: map_of_assoc_set)
  obtain written where wr:
    "open_write (cwd w) (archive_path name version) (ascii_text (compress zc ?doc)) = Inr written"
    using can_write_text [OF assms(5)] by blast
  from write_package_ok [OF bp' v wr]
  have wp: "fst (write_package zc name w) = Inr (index_entry zc version ?doc)"
    "cwd (snd (write_package zc name w)) = written"
    by simp_all
  let ?index = "index_entry zc version ?doc"
  obtain w' where w': "write_package zc name w = (Inr ?index, w')" "cwd w' = written"
    using wp by (cases "write_package zc name w") auto
  have read: "open_read (cwd w') (archive_path name version) = Inr (ascii_text (compress zc ?doc))"
    using wr w'(2) by (simp add: open_read_open_write)
  have "getitem final name = Inr ?index"
    if "name \<notin> set rest \<and> main_loop zc (name # rest) (JObject packages) w = (Inr final, w'')"
    for rest packages final w''
  proof -
    from that w'(1)
    have "main_loop zc rest (JObject (assoc_set packages name ?index)) w' = (Inr final, w'')"
      by (simp add: setitem_def index_entry_def)
    with that have "getitem final name = getitem (JObject (assoc_set packages name ?index)) name"
      using main_loop_getitem by blast
    then show ?thesis by (simp add: getitem_assoc_set_same)
  qed
  with files bp w'(1) read show ?thesis by blast
qed

lemma world_empty_manifest:
  \<open>open_read (cwd world_empty) (manifest_path ''e'') = Inr ''{"version": 2}''\<close>
  by (simp add: world_empty_def open_read_def resolve_def manifest_path_def
      PACKAGES_ROOT_SRC_DIR_def MANIFEST_FILE_def)

lemma world_empty_loads:
  \<open>json_loads ''{"version": 2}'' = Inr (JObject [(''version'', JInt 2)])\<close>
  by code_simp

lemma world_empty_source:
  "resolve (cwd world_empty) (source_path ''e'') = Inl FileNotFoundError \<or>
   resolve (cwd world_empty) (source_path ''e'') = Inr (Dir [])"
  by (simp add: world_empty_def resolve_def source_path_def
      PACKAGES_ROOT_SRC_DIR_def PACKAGES_SRC_DIR_def)

lemma world_empty_path: "archive_path ''e'' (JInt 2) = ''./pool/e.2.ccp''"
  by code_simp

lemma world_empty_can_write: "can_write (cwd world_empty) (archive_path ''e'' (JInt 2))"
  unfolding world_empty_path
  by (simp add: can_write_def open_write_def world_empty_def)

theorem C8_no_source_files_witness:
  "get_package_files (cwd world_empty) ''e'' = [] \<and>
   fst (build_package ''e'' world_empty) =
     Inr (JObject [(''version'', JInt 2), (''files'', JObject [])]) \<and>
   (\<exists>index w'. write_package id ''e'' world_empty = (Inr index, w') \<and>
      getitem index ''version'' = Inr (JInt 2) \<and>
      (\<exists>archive. open_read (cwd w') ''./pool/e.2.ccp'' = Inr archive))"
proof -
  have v: "map_of [(''version'', JInt 2)] ''version'' = Some (JInt 2)" by simp
  from C8_no_source_files [OF world_empty_manifest world_empty_loads v world_empty_source
      world_empty_can_write, of id]
  show ?thesis
    by (auto simp: world_empty_path index_entry_def getitem_def)
qed

end
